theory Spec2Isabelle
  imports Main
begin

section \<open>JavaScript values\<close>

text \<open>
  The values that flow through the engine: models, layout mappings, front-matter
  configuration and render options. Objects are association lists in insertion order,
  with at most one entry per key. Numbers are integers; arrays, functions and the
  prototype chain are outside this value universe.
\<close>

datatype jsval =
    VUndef
  | VNull
  | VBool bool
  | VNum int
  | VStr string
  | VObj "(string \<times> jsval) list"

type_synonym jsobj = "(string \<times> jsval) list"

text \<open>A thrown value: the error's name and message, as \<open>err.toString()\<close> reads them.\<close>

datatype jserr = JsErr string string

fun err_toString :: "jserr \<Rightarrow> string" where
  "err_toString (JsErr name msg) =
     (if name = [] then msg else if msg = [] then name else name @ '': '' @ msg)"

text \<open>\<open>new Error(msg)\<close>\<close>

definition new_Error :: "string \<Rightarrow> jserr" where
  "new_Error msg = JsErr ''Error'' msg"

text \<open>\<open>obj[key]\<close>: \<open>undefined\<close> when the key is absent.\<close>

definition get :: "jsobj \<Rightarrow> string \<Rightarrow> jsval" where
  "get obj k = (case map_of obj k of None \<Rightarrow> VUndef | Some v \<Rightarrow> v)"

text \<open>\<open>key in obj\<close> / \<open>_.has(obj, key)\<close> for own keys.\<close>

definition has :: "(string \<times> 'a) list \<Rightarrow> string \<Rightarrow> bool" where
  "has obj k = (k \<in> set (map fst obj))"

text \<open>
  \<open>obj[key] = value\<close>: an existing key keeps its place, a new key goes last. This is
  the order in which JavaScript enumerates the keys of an object none of whose keys is an
  array index (the decimal form of a number, as in a section named \<open>1\<close>); keys that
  are array indices it enumerates first, which the lists here do not follow.
\<close>

fun put :: "(string \<times> 'a) list \<Rightarrow> string \<Rightarrow> 'a \<Rightarrow> (string \<times> 'a) list" where
  "put [] k v = [(k, v)]"
| "put ((k', v') # rest) k v =
     (if k' = k then (k, v) # rest else (k', v') # put rest k v)"

text \<open>JavaScript truthiness, as \<open>!!v\<close>, \<open>v || d\<close> and \<open>if (v)\<close> read it.\<close>

fun truthy :: "jsval \<Rightarrow> bool" where
  "truthy VUndef = False"
| "truthy VNull = False"
| "truthy (VBool b) = b"
| "truthy (VNum n) = (n \<noteq> 0)"
| "truthy (VStr s) = (s \<noteq> [])"
| "truthy (VObj _) = True"

text \<open>Decimal digits of a natural number, for string coercion and index keys.\<close>

function digits :: "nat \<Rightarrow> string" where
  "digits n =
     (if n < 10 then [char_of (48 + n)]
      else digits (n div 10) @ [char_of (48 + n mod 10)])"
  by pat_completeness auto
termination
  by (relation "measure id") auto

declare digits.simps [simp del]

text \<open>
  String coercion, as \<open>'' + v\<close> performs it; an integer is printed in decimal, as
  JavaScript prints the integers below \<open>10^21\<close>.
\<close>

fun to_str :: "jsval \<Rightarrow> string" where
  "to_str VUndef = ''undefined''"
| "to_str VNull = ''null''"
| "to_str (VBool b) = (if b then ''true'' else ''false'')"
| "to_str (VNum n) = (if n < 0 then CHR ''-'' # digits (nat (- n)) else digits (nat n))"
| "to_str (VStr s) = s"
| "to_str (VObj _) = ''[object Object]''"

text \<open>
  The own enumerable properties of a value as lodash iterates them: an object's entries,
  a string's characters under their indices, nothing for the other scalars.
\<close>

fun index_chars :: "nat \<Rightarrow> string \<Rightarrow> jsobj" where
  "index_chars i [] = []"
| "index_chars i (c # cs) = (digits i, VStr [c]) # index_chars (Suc i) cs"

fun own_props :: "jsval \<Rightarrow> jsobj" where
  "own_props (VObj obj) = obj"
| "own_props (VStr s) = index_chars 0 s"
| "own_props _ = []"

subsection \<open>lodash: \<open>_.merge\<close> and \<open>_.assign\<close>\<close>

text \<open>
  \<open>_.merge(object, source)\<close> walks the source's keys. A source value that is a plain
  object is merged recursively into the destination's value under that key (into a fresh
  empty object when the destination holds no object there); a source value
  \<open>undefined\<close> is skipped when the destination has the key; any other source value
  is assigned.
\<close>

fun merge_into :: "jsobj \<Rightarrow> jsobj \<Rightarrow> jsobj" where
  "merge_into obj [] = obj"
| "merge_into obj ((k, VObj so) # src) =
     merge_into
       (put obj k (VObj (merge_into (case get obj k of VObj oo \<Rightarrow> oo | _ \<Rightarrow> []) so)))
       src"
| "merge_into obj ((k, VUndef) # src) =
     merge_into (if has obj k then obj else put obj k VUndef) src"
| "merge_into obj ((k, v) # src) = merge_into (put obj k v) src"

text \<open>\<open>_.merge({}, a, b)\<close>\<close>

definition lodash_merge :: "jsval \<Rightarrow> jsval \<Rightarrow> jsobj" where
  "lodash_merge a b = merge_into (merge_into [] (own_props a)) (own_props b)"

text \<open>
  \<open>_.assign(object, source)\<close> copies every own property of the source, one level deep.
\<close>

fun assign_into :: "jsobj \<Rightarrow> jsobj \<Rightarrow> jsobj" where
  "assign_into obj [] = obj"
| "assign_into obj ((k, v) # src) = assign_into (put obj k v) src"


section \<open>The template parser\<close>

subsection \<open>Character classes and the regular expressions of \<open>settings\<close>\<close>

text \<open>\<open>\s\<close> and \<open>\w\<close> on single-byte characters.\<close>

definition is_space :: "char \<Rightarrow> bool" where
  "is_space c =
     (c \<in> set [CHR 0x09, CHR 0x0A, CHR 0x0B, CHR 0x0C, CHR 0x0D, CHR 0x20, CHR 0xA0])"

definition is_word :: "char \<Rightarrow> bool" where
  "is_word c =
     (c \<in> set ''abcdefghijklmnopqrstuvwxyzABCDEFGHIJKLMNOPQRSTUVWXYZ0123456789_'')"

text \<open>The class \<open>[\w\.$]\<close> of section names.\<close>

definition is_name :: "char \<Rightarrow> bool" where
  "is_name c = (is_word c \<or> c = CHR ''.'' \<or> c = CHR ''$'')"

definition starts_with :: "string \<Rightarrow> string \<Rightarrow> bool" where
  "starts_with pat s = (take (length pat) s = pat)"

text \<open>
  The first occurrence of a literal in a text: what comes before it and what comes after
  it. A lazy \<open>[\s\S]+?\<close> followed by a literal stops here.
\<close>

fun split_first :: "string \<Rightarrow> string \<Rightarrow> (string \<times> string) option" where
  "split_first pat [] = (if pat = [] then Some ([], []) else None)"
| "split_first pat (c # cs) =
     (if starts_with pat (c # cs) then Some ([], drop (length pat) (c # cs))
      else (case split_first pat cs of
              None \<Rightarrow> None
            | Some (before, after) \<Rightarrow> Some (c # before, after)))"

text \<open>
  \<open>settings.config = /^---([\s\S]+?)---/g\<close>: the text starts with three dashes, and the
  capture is the shortest non-empty text up to the next three dashes.
\<close>

definition match_config :: "string \<Rightarrow> string option" where
  "match_config str =
     (if starts_with ''---'' str then
        (case drop 3 str of
           [] \<Rightarrow> None
         | c # rest \<Rightarrow>
             (case split_first ''---'' rest of
                None \<Rightarrow> None
              | Some (conf, after) \<Rightarrow> Some (c # conf)))
      else None)"

text \<open>
  \<open>settings.comment = /<!--([\s\S]+?)-->/g\<close> at the head of a text: what follows the
  match.
\<close>

definition match_comment :: "string \<Rightarrow> string option" where
  "match_comment str =
     (if starts_with ''<!--'' str then
        (case drop 4 str of
           [] \<Rightarrow> None
         | c # rest \<Rightarrow>
             (case split_first ''-->'' rest of
                None \<Rightarrow> None
              | Some (code, after) \<Rightarrow> Some after))
      else None)"

text \<open>
  \<open>settings.dot.define = /\[\[##\s*([\w\.$]+)\s*(:|=)([\s\S]+?)#]]/g\<close> at the head of a
  text: the name, the value and what follows the match.
\<close>

definition match_define :: "string \<Rightarrow> (string \<times> string \<times> string) option" where
  "match_define str =
     (if starts_with ''[[##'' str then
        (let r1 = dropWhile is_space (drop 4 str);
             code = takeWhile is_name r1;
             r2 = dropWhile is_space (dropWhile is_name r1)
         in if code = [] then None
            else (case r2 of
                    assign # c # rest \<Rightarrow>
                      if assign = CHR '':'' \<or> assign = CHR ''='' then
                        (case split_first ''#]]'' rest of
                           None \<Rightarrow> None
                         | Some (v, after) \<Rightarrow> Some (code, c # v, after))
                      else None
                  | _ \<Rightarrow> None))
      else None)"

text \<open>
  \<open>settings.partialAsync = /(?<!await\s+)\bpartial\s*\([^)]*\)/g\<close> at a position of a
  text, given the text before the position in reverse: the match and what follows it.
  The look-behind fails the match when the position is preceded by \<open>await\<close> and at
  least one white-space character; \<open>\b\<close> asks for no word character just before.
\<close>

definition awaited :: "string \<Rightarrow> bool" where
  "awaited before_rev =
     (takeWhile is_space before_rev \<noteq> [] \<and>
      starts_with ''tiawa'' (dropWhile is_space before_rev))"

definition word_boundary :: "string \<Rightarrow> bool" where
  "word_boundary before_rev = (case before_rev of [] \<Rightarrow> True | c # _ \<Rightarrow> \<not> is_word c)"

definition match_call :: "string \<Rightarrow> (string \<times> string) option" where
  "match_call str =
     (if starts_with ''partial'' str then
        (let ws = takeWhile is_space (drop 7 str);
             r1 = dropWhile is_space (drop 7 str)
         in case r1 of
              [] \<Rightarrow> None
            | p # r2 \<Rightarrow>
                if p = CHR ''('' then
                  (case dropWhile (\<lambda>c. c \<noteq> CHR '')'') r2 of
                     [] \<Rightarrow> None
                   | q # after \<Rightarrow>
                       Some (''partial'' @ ws @ [p] @ takeWhile (\<lambda>c. c \<noteq> CHR '')'') r2 @ [q],
                             after))
                else None)
      else None)"

definition match_partialAsync :: "string \<Rightarrow> string \<Rightarrow> (string \<times> string) option" where
  "match_partialAsync before_rev str =
     (if awaited before_rev \<or> \<not> word_boundary before_rev then None else match_call str)"


text \<open>What a match leaves to scan is shorter than the text it was found in.\<close>

lemma split_first_length:
  "split_first pat s = Some (before, after) \<Longrightarrow> length after \<le> length s"
  by (induction s arbitrary: before) (auto split: if_splits option.splits)

lemma match_comment_length: "match_comment (c # cs) = Some after \<Longrightarrow> length after \<le> length cs"
proof -
  assume m: "match_comment (c # cs) = Some after"
  then obtain x rest code where d: "drop 4 (c # cs) = x # rest"
    and s: "split_first ''-->'' rest = Some (code, after)"
    by (auto simp: match_comment_def split: if_splits list.splits option.splits)
  from d have "length (drop 4 (c # cs)) = Suc (length rest)" by simp
  then have "length rest \<le> length cs" by simp
  with split_first_length[OF s] show ?thesis by simp
qed

lemma match_define_length:
  "match_define (c # cs) = Some (code, v, after) \<Longrightarrow> length after \<le> length cs"
proof -
  assume m: "match_define (c # cs) = Some (code, v, after)"
  define r2 where "r2 = dropWhile is_space (dropWhile is_name (dropWhile is_space (drop 4 (c # cs))))"
  have "length r2 \<le> length (drop 4 (c # cs))"
    unfolding r2_def
    by (meson length_dropWhile_le order_trans)
  then have l: "length r2 \<le> length cs" by simp
  from m obtain a x rest w where "r2 = a # x # rest" "split_first ''#]]'' rest = Some (w, after)"
    by (auto simp: match_define_def Let_def r2_def split: if_splits list.splits option.splits)
  with l split_first_length show ?thesis by fastforce
qed

lemma match_call_length: "match_call (c # cs) = Some (m, after) \<Longrightarrow> length after \<le> length cs"
proof -
  assume m: "match_call (c # cs) = Some (m, after)"
  define r1 where "r1 = dropWhile is_space (drop 7 (c # cs))"
  have "length r1 \<le> length (drop 7 (c # cs))"
    unfolding r1_def by (rule length_dropWhile_le)
  then have l: "length r1 \<le> length cs" by simp
  from m obtain p r2 q where "r1 = p # r2" "dropWhile (\<lambda>c. c \<noteq> CHR '')'') r2 = q # after"
    by (auto simp: match_call_def Let_def r1_def split: if_splits list.splits)
  moreover have "length (dropWhile (\<lambda>c. c \<noteq> CHR '')'') r2) \<le> length r2"
    by (rule length_dropWhile_le)
  ultimately show ?thesis using l by simp
qed

text \<open>
  \<open>str.replace(settings.comment, function () { return ''; })\<close>: every match, left to
  right, is removed.
\<close>

function strip_comments :: "string \<Rightarrow> string" where
  "strip_comments [] = []"
| "strip_comments (c # cs) =
     (case match_comment (c # cs) of
        Some after \<Rightarrow> strip_comments after
      | None \<Rightarrow> c # strip_comments cs)"
  by pat_completeness auto
termination
  by (relation "measure length") (auto dest: match_comment_length)

text \<open>
  The matches that \<open>str.replace(settings.dot.define, ...)\<close> hands to its callback, left to
  right: the name (\<open>code\<close>) and the value of each.
\<close>

function define_matches :: "string \<Rightarrow> (string \<times> string) list" where
  "define_matches [] = []"
| "define_matches (c # cs) =
     (case match_define (c # cs) of
        Some (code, v, after) \<Rightarrow> (code, v) # define_matches after
      | None \<Rightarrow> define_matches cs)"
  by pat_completeness auto
termination
  by (relation "measure length") (auto dest: match_define_length)

text \<open>
  \<open>str.replace(settings.partialAsync, 'await $&')\<close>, scanning from a position whose
  preceding text is given in reverse.
\<close>

function partialAsync_from :: "string \<Rightarrow> string \<Rightarrow> string" where
  "partialAsync_from before_rev [] = []"
| "partialAsync_from before_rev (c # cs) =
     (case match_partialAsync before_rev (c # cs) of
        Some (m, after) \<Rightarrow> ''await '' @ m @ partialAsync_from (rev m @ before_rev) after
      | None \<Rightarrow> c # partialAsync_from (c # before_rev) cs)"
  by pat_completeness auto
termination
  by (relation "measure (\<lambda>(b, s). length s)")
     (auto simp: match_partialAsync_def split: if_splits dest: match_call_length)

definition partialAsync_replace :: "string \<Rightarrow> string" where
  "partialAsync_replace str = partialAsync_from [] str"


section \<open>The engine\<close>

subsection \<open>Sections, options and the environment\<close>

text \<open>
  A compiled section is a function of its positional arguments. What it does when it runs
  is a tree: it returns its text, it throws, or it calls the \<open>partial\<close> helper with a
  path and extra data objects and goes on with what the call gave back (its string, or
  the error it threw). The helper is a closure over the \<open>layout\<close> and \<open>model\<close> of
  \<open>createPartialHelper\<close>; an argument is a value or that closure.
\<close>

datatype arg = AVal jsval | AHelper jsobj jsobj

datatype prog =
    Done string
  | Fail jserr
  | CallPartial string "jsobj list" "jserr + string \<Rightarrow> prog"

type_synonym section_fn = "arg list \<Rightarrow> prog"

text \<open>
  The options object that express hands to the engine, and the \<open>templateSettings\<close> cut
  from it: its data fields (\<open>cache\<close>, \<open>settings\<close>, \<open>_locals\<close>, the model's own
  fields) and its \<open>getTemplate\<close> function, when it has one.
\<close>

record options =
  data :: jsobj
  getTemplateFn :: "(string \<Rightarrow> jserr + string) option"

text \<open>
  What the engine takes from outside: the file system, the YAML parser, doT's two
  compilers (given a section's text and the \<open>varname\<close> list), node's \<open>path\<close>, and
  the process-wide \<open>settings.header\<close> and \<open>settings.stripComment\<close>.
\<close>

record env =
  readFile :: "string \<Rightarrow> jserr + string"
  yaml_load :: "string \<Rightarrow> jserr + jsval"
  dot_template :: "string \<Rightarrow> string \<Rightarrow> jserr + section_fn"
  dot_templateAsync :: "string \<Rightarrow> string \<Rightarrow> jserr + section_fn"
  path_join :: "string \<Rightarrow> string \<Rightarrow> string"
  path_dirname :: "string \<Rightarrow> string"
  header :: string
  stripComment :: bool

record Template =
  express :: options
  config :: jsval
  sections :: "(string \<times> string) list"
  dirname :: string
  filename :: string
  isAsync :: bool
  isLayout :: bool
  master :: "string option"
  templates :: "(string \<times> section_fn) list"
  varname :: string
  viewData :: "jsval list"
  shortcuts :: jsval

record render_options =
  layout :: jsobj
  model :: jsobj
  isPartial :: bool

text \<open>The two cache stores.\<close>

record stores =
  cache :: "string \<Rightarrow> Template option"
  asyncCache :: "string \<Rightarrow> Template option"

text \<open>Reading a property of \<open>undefined\<close> or \<open>null\<close> throws.\<close>

definition cannot_read :: "jsval \<Rightarrow> string \<Rightarrow> jserr" where
  "cannot_read v k =
     JsErr ''TypeError''
       (''Cannot read properties of '' @ to_str v @ '' (reading '' @ [CHR 0x27] @ k @ [CHR 0x27] @ '')'')"

definition read_prop :: "jsval \<Rightarrow> string \<Rightarrow> jserr + jsval" where
  "read_prop v k =
     (case v of
        VUndef \<Rightarrow> Inl (cannot_read v k)
      | VNull \<Rightarrow> Inl (cannot_read v k)
      | _ \<Rightarrow> Inr (get (own_props v) k))"

text \<open>\<open>path.join\<close> throws on an argument that is not a string.\<close>

definition path_type_error :: jserr where
  "path_type_error =
     JsErr ''TypeError'' (''The '' @ [CHR 0x22] @ ''path'' @ [CHR 0x22] @ '' argument must be of type string'')"

definition join_path :: "env \<Rightarrow> jsval \<Rightarrow> jsval \<Rightarrow> jserr + string" where
  "join_path env a b =
     (case (a, b) of
        (VStr x, VStr y) \<Rightarrow> Inr (path_join env x y)
      | _ \<Rightarrow> Inl path_type_error)"

subsection \<open>\<open>processTemplateString\<close>\<close>

text \<open>\<open>sections[code] = ...\<close>; an assignment of a string to \<open>__proto__\<close> adds no key.\<close>

definition set_section :: "(string \<times> string) list \<Rightarrow> string \<Rightarrow> string \<Rightarrow> (string \<times> string) list" where
  "set_section secs code v = (if code = ''__proto__'' then secs else put secs code v)"

definition pick_settings :: "options \<Rightarrow> options" where
  "pick_settings opts =
     \<lparr> data =
         (if has (data opts) ''settings'' then [(''settings'', get (data opts) ''settings'')] else [])
         @ [(''cache'',
             if truthy (get (data opts) ''cache'') then get (data opts) ''cache'' else VBool False)],
       getTemplateFn = getTemplateFn opts \<rparr>"

text \<open>
  \<open>partial = isAsync ? (str) => str.replace(settings.partialAsync, 'await $&') : (str) => str\<close>
\<close>

definition partial_rewriter :: "bool \<Rightarrow> string \<Rightarrow> string" where
  "partial_rewriter async str = (if async then partialAsync_replace str else str)"

definition processTemplateString ::
  "env \<Rightarrow> string \<Rightarrow> options \<Rightarrow> bool \<Rightarrow> jserr + jsval \<times> (string \<times> string) list \<times> options" where
  "processTemplateString env str opts async =
     (case (case match_config str of
              None \<Rightarrow> Inr (VObj [])
            | Some conf \<Rightarrow> yaml_load env conf) of
        Inl e \<Rightarrow> Inl e
      | Inr conf \<Rightarrow>
          (let str' = (if stripComment env then strip_comments str else str);
               partial = partial_rewriter async
           in case read_prop conf ''layout'' of
                Inl e \<Rightarrow> Inl e
              | Inr lay \<Rightarrow>
                  Inr (conf,
                       (if \<not> truthy lay then [(''body'', partial str')]
                        else foldl (\<lambda>secs (code, v). set_section secs code (partial v)) []
                               (define_matches str')),
                       pick_settings opts)))"


text \<open>\<open>layoutModel = _.merge({}, layout, this.options.config)\<close>, in \<open>render\<close> and \<open>renderAsync\<close>.\<close>

definition seed_layoutModel :: "jsobj \<Rightarrow> jsval \<Rightarrow> jsobj" where
  "seed_layoutModel lay conf = lodash_merge (VObj lay) conf"

text \<open>An object of JavaScript has each key once, at every depth.\<close>

fun wf_val :: "jsval \<Rightarrow> bool" where
  "wf_val (VObj obj) = (distinct (map fst obj) \<and> (\<forall>v \<in> snd ` set obj. wf_val v))"
| "wf_val _ = True"

subsection \<open>The \<open>Template\<close> constructor\<close>

text \<open>\<open>_.keys(obj).join()\<close>\<close>

fun join_keys :: "string list \<Rightarrow> string" where
  "join_keys [] = []"
| "join_keys [k] = k"
| "join_keys (k # ks) = k @ '','' @ join_keys ks"

text \<open>
  \<open>init\<close> and \<open>initAsync\<close>: every section is compiled and stored under its name. A
  section named \<open>hasOwnProperty\<close> hides the method the loop calls on \<open>sections\<close>.
\<close>

fun compile_sections ::
  "(string \<Rightarrow> string \<Rightarrow> jserr + section_fn) \<Rightarrow> string \<Rightarrow> (string \<times> string) list \<Rightarrow>
     (string \<times> section_fn) list \<Rightarrow> jserr + (string \<times> section_fn) list" where
  "compile_sections compiler vn [] acc = Inr acc"
| "compile_sections compiler vn ((key, text) # rest) acc =
     (case compiler text vn of
        Inl e \<Rightarrow> Inl e
      | Inr f \<Rightarrow> compile_sections compiler vn rest (put acc key f))"

definition not_a_function :: jserr where
  "not_a_function = JsErr ''TypeError'' ''sections.hasOwnProperty is not a function''"

definition init :: "env \<Rightarrow> Template \<Rightarrow> jserr + Template" where
  "init env t =
     (if sections t \<noteq> [] \<and> has (sections t) ''hasOwnProperty'' then Inl not_a_function
      else (case compile_sections (dot_template env) (varname t) (sections t) [] of
              Inl e \<Rightarrow> Inl e
            | Inr fs \<Rightarrow> Inr (t\<lparr>templates := fs\<rparr>)))"

text \<open>
  \<open>initAsync\<close>: the call itself throws on \<open>hasOwnProperty\<close>; a compiler's failure
  comes as the rejection of the promise it returned.
\<close>

definition initAsync_throws :: "Template \<Rightarrow> jserr option" where
  "initAsync_throws t =
     (if sections t \<noteq> [] \<and> has (sections t) ''hasOwnProperty'' then Some not_a_function else None)"

definition initAsync :: "env \<Rightarrow> Template \<Rightarrow> jserr + Template" where
  "initAsync env t =
     (case compile_sections (dot_templateAsync env) (varname t) (sections t) [] of
        Inl e \<Rightarrow> Inl e
      | Inr fs \<Rightarrow> Inr (t\<lparr>templates := fs\<rparr>))"

text \<open>
  \<open>new Template(options, isAsync)\<close> with \<open>options = {express, config, sections, dirname,
  filename}\<close>. The sync constructor ends with \<open>init\<close>.
\<close>

definition template_fields ::
  "options \<Rightarrow> jsval \<Rightarrow> (string \<times> string) list \<Rightarrow> string \<Rightarrow> string \<Rightarrow> bool \<Rightarrow>
     jsval \<Rightarrow> string option \<Rightarrow> Template" where
  "template_fields ex conf secs dir file async lay mst =
     (let settings = get (data ex) ''settings'';
          has_vd = (has (data ex) ''settings'' \<and> has (own_props settings) ''view data'');
          vd = (if has_vd then own_props (get (own_props settings) ''view data'') else []);
          has_sc = (has (data ex) ''settings'' \<and> has (own_props settings) ''view shortcut'');
          sc = (if has_sc then get (own_props settings) ''view shortcut'' else VObj []);
          vn1 = foldl (\<lambda>result (key, v). result @ '', '' @ key) ''layout, partial, locals, model'' vd;
          vn2 = (if has_sc then vn1 @ '', '' @ join_keys (map fst (own_props sc)) else vn1)
      in \<lparr> express = ex, config = conf, sections = secs, dirname = dir,
           filename = file, isAsync = async, isLayout = truthy lay, master = mst,
           templates = [], varname = vn2, viewData = map snd vd, shortcuts = sc \<rparr>)"

definition new_Template ::
  "env \<Rightarrow> options \<Rightarrow> jsval \<Rightarrow> (string \<times> string) list \<Rightarrow> string \<Rightarrow> string \<Rightarrow> bool \<Rightarrow>
     jserr + Template" where
  "new_Template env ex conf secs dir file async =
     (case read_prop conf ''layout'' of
        Inl e \<Rightarrow> Inl e
      | Inr lay \<Rightarrow>
          (case (if truthy lay then map_sum id Some (join_path env (VStr dir) lay) else Inr None) of
             Inl e \<Rightarrow> Inl e
           | Inr mst \<Rightarrow>
               if async then Inr (template_fields ex conf secs dir file async lay mst)
               else init env (template_fields ex conf secs dir file async lay mst)))"

subsection \<open>Building a template from a string\<close>

definition failed_to_build :: "string \<Rightarrow> jserr \<Rightarrow> jserr" where
  "failed_to_build file err =
     new_Error (''Failed to build template ('' @ file @ '') - '' @ err_toString err)"

definition builtTemplateFromString :: "env \<Rightarrow> string \<Rightarrow> string \<Rightarrow> options \<Rightarrow> jserr + Template" where
  "builtTemplateFromString env str file opts =
     (case (case processTemplateString env str opts False of
              Inl e \<Rightarrow> Inl e
            | Inr (conf, secs, templateSettings) \<Rightarrow>
                new_Template env templateSettings conf secs (path_dirname env file) file False) of
        Inl err \<Rightarrow> Inl (failed_to_build file err)
      | Inr t \<Rightarrow> Inr t)"

definition builtTemplateFromStringAsync :: "env \<Rightarrow> string \<Rightarrow> string \<Rightarrow> options \<Rightarrow> jserr + Template" where
  "builtTemplateFromStringAsync env str file opts =
     (case (case processTemplateString env str opts True of
              Inl e \<Rightarrow> Inl e
            | Inr (conf, secs, templateSettings) \<Rightarrow>
                (case new_Template env templateSettings conf secs (path_dirname env file) file True of
                   Inl e \<Rightarrow> Inl e
                 | Inr t \<Rightarrow> (case initAsync_throws t of Some e \<Rightarrow> Inl e | None \<Rightarrow> Inr t))) of
        Inl err \<Rightarrow> Inl (failed_to_build file err)
      | Inr t \<Rightarrow> initAsync env t)"

subsection \<open>Loading and caching\<close>

text \<open>
  \<open>buildTemplate\<close> and \<open>buildTemplateAsync\<close>, called without a callback: the content
  comes from \<open>options.getTemplate\<close> when there is one, from the file otherwise.
\<close>

definition getTemplateContent :: "env \<Rightarrow> string \<Rightarrow> options \<Rightarrow> jserr + string" where
  "getTemplateContent env file opts =
     (case getTemplateFn opts of
        Some f \<Rightarrow> f file
      | None \<Rightarrow> readFile env file)"

definition buildTemplate :: "env \<Rightarrow> string \<Rightarrow> options \<Rightarrow> jserr + Template" where
  "buildTemplate env file opts =
     (case getTemplateContent env file opts of
        Inl e \<Rightarrow> Inl e
      | Inr templateText \<Rightarrow> builtTemplateFromString env templateText file opts)"

definition buildTemplateAsync :: "env \<Rightarrow> string \<Rightarrow> options \<Rightarrow> jserr + Template" where
  "buildTemplateAsync env file opts =
     (case getTemplateContent env file opts of
        Inl e \<Rightarrow> Inl e
      | Inr templateText \<Rightarrow> builtTemplateFromStringAsync env templateText file opts)"

text \<open>\<open>cacheTemplate = !!options.cache\<close>\<close>

definition cacheTemplate :: "options \<Rightarrow> bool" where
  "cacheTemplate opts = truthy (get (data opts) ''cache'')"

definition getTemplate :: "env \<Rightarrow> string \<Rightarrow> options \<Rightarrow> stores \<Rightarrow> (jserr + Template) \<times> stores" where
  "getTemplate env file opts st =
     (case (if cacheTemplate opts then cache st file else None) of
        Some fromCache \<Rightarrow> (Inr fromCache, st)
      | None \<Rightarrow>
          (case buildTemplate env file opts of
             Inl e \<Rightarrow> (Inl e, st)
           | Inr t \<Rightarrow>
               (Inr t, if cacheTemplate opts then st\<lparr>cache := (cache st)(file \<mapsto> t)\<rparr> else st)))"

definition getTemplateAsync :: "env \<Rightarrow> string \<Rightarrow> options \<Rightarrow> stores \<Rightarrow> (jserr + Template) \<times> stores" where
  "getTemplateAsync env file opts st =
     (case (if cacheTemplate opts then asyncCache st file else None) of
        Some fromCache \<Rightarrow> (Inr fromCache, st)
      | None \<Rightarrow>
          (case buildTemplateAsync env file opts of
             Inl e \<Rightarrow> (Inl e, st)
           | Inr t \<Rightarrow>
               (Inr t, if cacheTemplate opts then st\<lparr>asyncCache := (asyncCache st)(file \<mapsto> t)\<rparr> else st)))"

subsection \<open>The arguments of a section\<close>

text \<open>
  \<open>_.union\<close> concatenates its arrays and keeps the first of the values that are the same
  (SameValueZero). Primitives are the same when they are equal. Objects and functions
  are the same as references only; the values here are trees, in which no object is
  reached along two ways, so two of them are one reference exactly when they were read
  from the same place. Every candidate argument carries the place it was read from: the
  fresh layout model, the fresh helper, \<open>model._locals\<close> (or the fresh \<open>{}\<close>), the
  model, the position in \<open>this.viewData\<close>, or the key read in \<open>model._locals\<close>.
\<close>

datatype place = Layout | Helper | Locals | Model | ViewData nat | Entry string

fun is_primitive :: "jsval \<Rightarrow> bool" where
  "is_primitive (VObj _) = False"
| "is_primitive _ = True"

fun is_reference :: "arg \<Rightarrow> bool" where
  "is_reference (AVal v) = (\<not> is_primitive v)"
| "is_reference (AHelper lay mdl) = True"

definition same_value :: "place \<times> arg \<Rightarrow> place \<times> arg \<Rightarrow> bool" where
  "same_value x y =
     (if is_reference (snd x) then is_reference (snd y) \<and> fst x = fst y else snd x = snd y)"

fun uniq_from :: "(place \<times> arg) list \<Rightarrow> (place \<times> arg) list \<Rightarrow> (place \<times> arg) list" where
  "uniq_from seen [] = []"
| "uniq_from seen (x # xs) =
     (if list_ex (\<lambda>y. same_value y x) seen then uniq_from seen xs
      else x # uniq_from (seen @ [x]) xs)"

definition lodash_union :: "(place \<times> arg) list list \<Rightarrow> (place \<times> arg) list" where
  "lodash_union arrays = uniq_from [] (concat arrays)"

text \<open>
  The callback \<open>function (shortcut) { return options.model._locals[X.shortcuts[shortcut]]
  || null; }\<close> mapped over the keys of the shortcuts, where \<open>holder\<close> is what
  \<open>X.shortcuts\<close> evaluates to. The key expression is evaluated before the property of
  \<open>_locals\<close> is read.
\<close>

fun shortcut_values :: "jsval \<Rightarrow> jsval \<Rightarrow> string list \<Rightarrow> jserr + (place \<times> arg) list" where
  "shortcut_values holder locals [] = Inr []"
| "shortcut_values holder locals (shortcut # rest) =
     (case read_prop holder shortcut of
        Inl e \<Rightarrow> Inl e
      | Inr path \<Rightarrow>
          (case read_prop locals (to_str path) of
             Inl e \<Rightarrow> Inl e
           | Inr v \<Rightarrow>
               (case shortcut_values holder locals rest of
                  Inl e \<Rightarrow> Inl e
                | Inr vs \<Rightarrow> Inr ((Entry (to_str path), AVal (if truthy v then v else VNull)) # vs))))"

text \<open>
  \<open>_.union([layoutModel, this.createPartialHelper(layoutModel, model),
  options.model._locals || {}, model], this.viewData, _.chain(this.shortcuts).keys()
  .map(callback, thisArg).valueOf())\<close>, the same expression in both methods but for
  the callback.
\<close>

definition section_arguments :: "jsval \<Rightarrow> Template \<Rightarrow> jsobj \<Rightarrow> jsobj \<Rightarrow> jserr + arg list" where
  "section_arguments holder t layoutModel mdl =
     (case shortcut_values holder (get mdl ''_locals'') (map fst (own_props (shortcuts t))) of
        Inl e \<Rightarrow> Inl e
      | Inr svs \<Rightarrow>
          Inr (map snd
                (lodash_union
                   [[(Layout, AVal (VObj layoutModel)),
                     (Helper, AHelper layoutModel mdl),
                     (Locals, AVal (if truthy (get mdl ''_locals'') then get mdl ''_locals'' else VObj [])),
                     (Model, AVal (VObj mdl))],
                    map (\<lambda>(i, v). (ViewData i, AVal v)) (enumerate 0 (viewData t)),
                    svs])))"

text \<open>
  In \<open>render\<close> the callback reads \<open>this.shortcuts\<close> and the template is handed to
  \<open>map\<close> as a second argument. lodash's \<open>map\<close> takes no such argument, so the callback,
  a \<open>function\<close> of a module that is not in strict mode, runs with the global object as
  \<open>this\<close>; that object has no \<open>shortcuts\<close>, and reading a key of \<open>undefined\<close> throws
  for the first shortcut.
\<close>

definition render_viewModel :: "Template \<Rightarrow> jsobj \<Rightarrow> jsobj \<Rightarrow> jserr + arg list" where
  "render_viewModel t layoutModel mdl = section_arguments VUndef t layoutModel mdl"

text \<open>In \<open>renderAsync\<close> the callback reads \<open>self.shortcuts\<close>, the template's own.\<close>

definition renderAsync_viewModel :: "Template \<Rightarrow> jsobj \<Rightarrow> jsobj \<Rightarrow> jserr + arg list" where
  "renderAsync_viewModel t layoutModel mdl = section_arguments (shortcuts t) t layoutModel mdl"

subsection \<open>The partial helper\<close>

text \<open>
  The closure that \<open>createPartialHelper(layout, model)\<close> returns holds its two
  parameters; a call may assign to \<open>model\<close>, so a call gives back the closure as it
  leaves it, with the path of the template and the options to render it with.
\<close>

definition createPartialHelper :: "jsobj \<Rightarrow> jsobj \<Rightarrow> jsobj \<times> jsobj" where
  "createPartialHelper lay mdl = (lay, mdl)"

definition partial_path :: "env \<Rightarrow> Template \<Rightarrow> string \<Rightarrow> jserr + string" where
  "partial_path env t partialPath =
     (if dirname t \<noteq> [] then Inr (path_join env (dirname t) partialPath)
      else (case read_prop (get (data (express t)) ''settings'') ''views'' of
              Inl e \<Rightarrow> Inl e
            | Inr views \<Rightarrow> join_path env views (VStr partialPath)))"

definition helper_call ::
  "env \<Rightarrow> Template \<Rightarrow> jsobj \<times> jsobj \<Rightarrow> string \<Rightarrow> jsobj list \<Rightarrow>
     jserr + (jsobj \<times> jsobj) \<times> string \<times> render_options" where
  "helper_call env t h partialPath args =
     (case h of (lay, mdl) \<Rightarrow>
        (case partial_path env t partialPath of
           Inl e \<Rightarrow> Inl e
         | Inr templatePath \<Rightarrow>
             (let mdl' = (if args \<noteq> [] then foldl assign_into [] (mdl # args) else mdl)
              in Inr ((lay, mdl'), templatePath,
                      \<lparr> layout = lay, model = mdl', isPartial = True \<rparr>))))"

subsection \<open>Running a section\<close>

type_synonym 'a outcome = "((jserr + 'a) \<times> stores) option"

type_synonym renderer = "Template \<Rightarrow> render_options \<Rightarrow> stores \<Rightarrow> string outcome"

type_synonym partial_fn =
  "jsobj \<times> jsobj \<Rightarrow> string \<Rightarrow> jsobj list \<Rightarrow> stores \<Rightarrow> ((jserr + string) \<times> (jsobj \<times> jsobj) \<times> stores) option"

text \<open>
  A call of the helper from a section of template \<open>t\<close>: the template is fetched and
  rendered by the pipeline of \<open>t.isAsync\<close>. \<open>None\<close> is a render that ran out of fuel.
\<close>

definition call_partial :: "env \<Rightarrow> renderer \<Rightarrow> renderer \<Rightarrow> Template \<Rightarrow> partial_fn" where
  "call_partial env rsync rasync t h partialPath args st =
     (case helper_call env t h partialPath args of
        Inl e \<Rightarrow> Some (Inl e, h, st)
      | Inr (h', templatePath, renderOptions) \<Rightarrow>
          (case (if isAsync t then getTemplateAsync env templatePath (express t) st
                 else getTemplate env templatePath (express t) st) of
             (Inl e, st') \<Rightarrow> Some (Inl e, h', st')
           | (Inr template, st') \<Rightarrow>
               (case (if isAsync t then rasync template renderOptions st'
                      else rsync template renderOptions st') of
                  None \<Rightarrow> None
                | Some (r, st'') \<Rightarrow> Some (r, h', st''))))"

primrec run_prog :: "partial_fn \<Rightarrow> prog \<Rightarrow> jsobj \<times> jsobj \<Rightarrow> stores \<Rightarrow> string outcome" where
  "run_prog call (Done s) h st = Some (Inr s, st)"
| "run_prog call (Fail e) h st = Some (Inl e, st)"
| "run_prog call (CallPartial partialPath args k) h st =
     (case call h partialPath args st of
        None \<Rightarrow> None
      | Some (r, h', st') \<Rightarrow> run_prog call (k r) h' st')"

text \<open>
  The body of the \<open>try\<close> in \<open>render\<close>: the argument list is built and the section
  function applied to it.
\<close>

definition invoke_section ::
  "partial_fn \<Rightarrow> Template \<Rightarrow> section_fn \<Rightarrow> jsobj \<Rightarrow> jsobj \<Rightarrow> stores \<Rightarrow> string outcome" where
  "invoke_section call t f layoutModel mdl st =
     (case render_viewModel t layoutModel mdl of
        Inl e \<Rightarrow> Some (Inl e, st)
      | Inr args \<Rightarrow> run_prog call (f args) (createPartialHelper layoutModel mdl) st)"

definition failed_to_render :: "Template \<Rightarrow> jserr \<Rightarrow> jserr" where
  "failed_to_render t err =
     new_Error (''Failed to render with doT ('' @ filename t @ '') - '' @ err_toString err)"

subsection \<open>\<open>Template.prototype.render\<close>\<close>

text \<open>The loop over \<open>this.templates\<close>, called without a callback.\<close>

fun render_sections ::
  "partial_fn \<Rightarrow> Template \<Rightarrow> jsobj \<Rightarrow> (string \<times> section_fn) list \<Rightarrow> jsobj \<Rightarrow> stores \<Rightarrow>
     jsobj outcome" where
  "render_sections call t mdl [] layoutModel st = Some (Inr layoutModel, st)"
| "render_sections call t mdl ((key, f) # rest) layoutModel st =
     (case invoke_section call t f layoutModel mdl st of
        None \<Rightarrow> None
      | Some (Inl err, st') \<Rightarrow> Some (Inl (failed_to_render t err), st')
      | Some (Inr out, st') \<Rightarrow>
          render_sections call t mdl rest (put layoutModel key (VStr out)) st')"

text \<open>\<open>(!options.isPartial ? settings.header : '') + layoutModel.body\<close>\<close>

definition no_layout_result :: "env \<Rightarrow> render_options \<Rightarrow> jsobj \<Rightarrow> string" where
  "no_layout_result env ro layoutModel =
     (if \<not> isPartial ro then header env else []) @ to_str (get layoutModel ''body'')"

definition render_with :: "env \<Rightarrow> renderer \<Rightarrow> renderer \<Rightarrow> renderer" where
  "render_with env rsync rasync t ro st =
     (case render_sections (call_partial env rsync rasync t) t (model ro) (templates t)
             (seed_layoutModel (layout ro) (config t)) st of
        None \<Rightarrow> None
      | Some (Inl e, st') \<Rightarrow> Some (Inl e, st')
      | Some (Inr layoutModel, st') \<Rightarrow>
          if \<not> isLayout t then Some (Inr (no_layout_result env ro layoutModel), st')
          else (case master t of
                  None \<Rightarrow> Some (Inl path_type_error, st')
                | Some m \<Rightarrow>
                    (case getTemplate env m (express t) st' of
                       (Inl e, st'') \<Rightarrow> Some (Inl e, st'')
                     | (Inr masterTemplate, st'') \<Rightarrow>
                         rsync masterTemplate
                           \<lparr> layout = layoutModel, model = model ro, isPartial = False \<rparr> st'')))"

subsection \<open>\<open>Template.prototype.renderAsync\<close>\<close>

text \<open>
  Every section is started with the argument list built from the seeded layout model; a
  failure to build the list is thrown (wrapped) by \<open>renderAsync\<close> itself, a failure of
  the section function is the rejection of its promise. The promises are modelled by
  their settled outcomes, the sections running to their end in the order of the keys.
  What depends on the scheduling of the promises is not followed: a partial that is still
  pending when another section's output is stored is rendered here with the seeded
  layout model, without that output, and of several rejections the first in the order of
  the keys is taken, not the first in time.
\<close>

fun start_sections ::
  "partial_fn \<Rightarrow> Template \<Rightarrow> jsobj \<Rightarrow> (string \<times> section_fn) list \<Rightarrow> jsobj \<Rightarrow> stores \<Rightarrow>
     (string \<times> (jserr + string)) list outcome" where
  "start_sections call t mdl [] layoutModel st = Some (Inr [], st)"
| "start_sections call t mdl ((key, f) # rest) layoutModel st =
     (case renderAsync_viewModel t layoutModel mdl of
        Inl err \<Rightarrow> Some (Inl (failed_to_render t err), st)
      | Inr args \<Rightarrow>
          (case run_prog call (f args) (createPartialHelper layoutModel mdl) st of
             None \<Rightarrow> None
           | Some (r, st') \<Rightarrow>
               (case start_sections call t mdl rest layoutModel st' of
                  None \<Rightarrow> None
                | Some (Inl e, st'') \<Rightarrow> Some (Inl e, st'')
                | Some (Inr rs, st'') \<Rightarrow> Some (Inr ((key, r) # rs), st''))))"

text \<open>
  \<open>Promise.all\<close> over \<open>promise.then((m) => layoutModel[key] = m)\<close>: a rejection rejects
  the whole, otherwise every result is stored under its key.
\<close>

fun settle_all :: "(string \<times> (jserr + string)) list \<Rightarrow> jsobj \<Rightarrow> jserr + jsobj" where
  "settle_all [] layoutModel = Inr layoutModel"
| "settle_all ((key, Inl e) # rest) layoutModel = Inl e"
| "settle_all ((key, Inr m) # rest) layoutModel = settle_all rest (put layoutModel key (VStr m))"

definition renderAsync_with :: "env \<Rightarrow> renderer \<Rightarrow> renderer \<Rightarrow> renderer" where
  "renderAsync_with env rsync rasync t ro st =
     (case start_sections (call_partial env rsync rasync t) t (model ro) (templates t)
             (seed_layoutModel (layout ro) (config t)) st of
        None \<Rightarrow> None
      | Some (Inl e, st') \<Rightarrow> Some (Inl e, st')
      | Some (Inr results, st') \<Rightarrow>
          (case settle_all results (seed_layoutModel (layout ro) (config t)) of
             Inl e \<Rightarrow> Some (Inl e, st')
           | Inr layoutModel \<Rightarrow>
               if \<not> isLayout t then Some (Inr (no_layout_result env ro layoutModel), st')
               else (case master t of
                       None \<Rightarrow> Some (Inl path_type_error, st')
                     | Some m \<Rightarrow>
                         (case getTemplateAsync env m (express t) st' of
                            (Inl e, st'') \<Rightarrow> Some (Inl e, st'')
                          | (Inr masterTemplate, st'') \<Rightarrow>
                              rasync masterTemplate
                                \<lparr> layout = layoutModel, model = model ro, isPartial = False \<rparr> st''))))"

text \<open>
  The two methods, with fuel for the depth of the renders they start (masters and
  partials): \<open>None\<close> when the fuel runs out.
\<close>

fun render :: "env \<Rightarrow> nat \<Rightarrow> renderer"
  and renderAsync :: "env \<Rightarrow> nat \<Rightarrow> renderer" where
  "render env 0 t ro st = None"
| "render env (Suc n) t ro st =
     render_with env (\<lambda>t' ro' st'. render env n t' ro' st')
       (\<lambda>t' ro' st'. renderAsync env n t' ro' st') t ro st"
| "renderAsync env 0 t ro st = None"
| "renderAsync env (Suc n) t ro st =
     renderAsync_with env (\<lambda>t' ro' st'. render env n t' ro' st')
       (\<lambda>t' ro' st'. renderAsync env n t' ro' st') t ro st"

subsection \<open>The entry points\<close>

text \<open>\<open>renderSync\<close>, \<open>renderAsync\<close>, \<open>renderString\<close> (without a callback) and \<open>renderStringAsync\<close>.\<close>

definition top_options :: "options \<Rightarrow> render_options" where
  "top_options opts = \<lparr> layout = [], model = data opts, isPartial = False \<rparr>"

definition renderSync :: "env \<Rightarrow> nat \<Rightarrow> string \<Rightarrow> options \<Rightarrow> stores \<Rightarrow> string outcome" where
  "renderSync env n file opts st =
     (case getTemplate env file opts st of
        (Inl e, st') \<Rightarrow> Some (Inl e, st')
      | (Inr template, st') \<Rightarrow> render env n template (top_options opts) st')"

definition engine_renderAsync :: "env \<Rightarrow> nat \<Rightarrow> string \<Rightarrow> options \<Rightarrow> stores \<Rightarrow> string outcome" where
  "engine_renderAsync env n file opts st =
     (case getTemplateAsync env file opts st of
        (Inl e, st') \<Rightarrow> Some (Inl e, st')
      | (Inr template, st') \<Rightarrow> renderAsync env n template (top_options opts) st')"

definition renderString :: "env \<Rightarrow> nat \<Rightarrow> string \<Rightarrow> options \<Rightarrow> stores \<Rightarrow> string outcome" where
  "renderString env n templateString opts st =
     (case builtTemplateFromString env templateString [] opts of
        Inl e \<Rightarrow> Some (Inl e, st)
      | Inr template \<Rightarrow> render env n template (top_options opts) st)"

definition renderStringAsync :: "env \<Rightarrow> nat \<Rightarrow> string \<Rightarrow> options \<Rightarrow> stores \<Rightarrow> string outcome" where
  "renderStringAsync env n templateString opts st =
     (case builtTemplateFromStringAsync env templateString [] opts of
        Inl e \<Rightarrow> Some (Inl e, st)
      | Inr template \<Rightarrow> renderAsync env n template (top_options opts) st)"

section \<open>A small site\<close>

text \<open>
  Concrete files, a front-matter reader and compiled sections for them, on which the
  engine can be run: a two-level layout, a page with front matter and no layout, a
  partial that prints \<open>model.x\<close>, a page that calls it twice, and a page that fails.
\<close>

definition site_files :: "(string \<times> string) list" where
  "site_files =
     [(''views/master.dot'', ''test-master [[= layout.section ]]''),
      (''views/child.dot'', ''---\<newline>layout: master.dot\<newline>---\<newline>[[##section:test-child#]]''),
      (''views/titled.dot'', ''---\<newline>section: mine\<newline>---\<newline>test-master [[= layout.section ]]''),
      (''views/child2.dot'', ''---\<newline>layout: titled.dot\<newline>---\<newline>[[##section:test-child#]]''),
      (''views/page.dot'', ''---\<newline>title: t\<newline>---\<newline>hello''),
      (''views/item.dot'', ''item [[= model.x ]];''),
      (''views/list.dot'', ''[[= partial('item.dot', {x: 1}) ]][[= partial('item.dot') ]]''),
      (''views/broken.dot'', ''[[= model.a.b ]]'')]"

definition site_readFile :: "string \<Rightarrow> jserr + string" where
  "site_readFile file =
     (case map_of site_files file of
        Some str \<Rightarrow> Inr str
      | None \<Rightarrow> Inl (JsErr ''Error'' (''ENOENT: no such file or directory, open '' @ file)))"

definition site_yaml :: "string \<Rightarrow> jserr + jsval" where
  "site_yaml conf =
     (if conf = ''\<newline>layout: master.dot\<newline>'' then Inr (VObj [(''layout'', VStr ''master.dot'')])
      else if conf = ''\<newline>layout: titled.dot\<newline>'' then Inr (VObj [(''layout'', VStr ''titled.dot'')])
      else if conf = ''\<newline>layout: false\<newline>'' then Inr (VObj [(''layout'', VBool False)])
      else if conf = ''\<newline>section: mine\<newline>'' then Inr (VObj [(''section'', VStr ''mine'')])
      else if conf = ''\<newline>title: t\<newline>'' then Inr (VObj [(''title'', VStr ''t'')])
      else Inr VUndef)"

text \<open>The property \<open>k\<close> of the \<open>i\<close>-th argument.\<close>

definition arg_prop :: "arg list \<Rightarrow> nat \<Rightarrow> string \<Rightarrow> jsval" where
  "arg_prop args i k = (case drop i args of AVal (VObj obj) # _ \<Rightarrow> get obj k | _ \<Rightarrow> VUndef)"

definition site_template :: "string \<Rightarrow> string \<Rightarrow> jserr + section_fn" where
  "site_template text vn =
     (if text = ''test-master [[= layout.section ]]'' then
        Inr (\<lambda>args. Done (''test-master '' @ to_str (arg_prop args 0 ''section'')))
      else if text = ''---\<newline>section: mine\<newline>---\<newline>test-master [[= layout.section ]]'' then
        Inr (\<lambda>args. Done (''---\<newline>section: mine\<newline>---\<newline>test-master ''
                            @ to_str (arg_prop args 0 ''section'')))
      else if text = ''item [[= model.x ]];'' then
        Inr (\<lambda>args. Done (''item '' @ to_str (arg_prop args 3 ''x'') @ '';''))
      else if text = ''[[= partial('item.dot', {x: 1}) ]][[= partial('item.dot') ]]''
            \<or> text = ''[[= await partial('item.dot', {x: 1}) ]][[= await partial('item.dot') ]]'' then
        Inr (\<lambda>args. CallPartial ''item.dot'' [[(''x'', VNum 1)]]
               (\<lambda>r1. case r1 of
                  Inl e \<Rightarrow> Fail e
                | Inr s1 \<Rightarrow>
                    CallPartial ''item.dot'' []
                      (\<lambda>r2. case r2 of Inl e \<Rightarrow> Fail e | Inr s2 \<Rightarrow> Done (s1 @ s2))))
      else if text = ''[[= model.a.b ]]'' then
        Inr (\<lambda>args. case read_prop (arg_prop args 3 ''a'') ''b'' of
                       Inl e \<Rightarrow> Fail e
                     | Inr v \<Rightarrow> Done (to_str v))
      else Inr (\<lambda>args. Done text))"

definition site_dirname :: "string \<Rightarrow> string" where
  "site_dirname file =
     (if CHR ''/'' \<in> set file then rev (drop 1 (dropWhile (\<lambda>c. c \<noteq> CHR ''/'') (rev file)))
      else ''.'')"

definition site :: env where
  "site =
     \<lparr> readFile = site_readFile, yaml_load = site_yaml, dot_template = site_template,
       dot_templateAsync = site_template, path_join = (\<lambda>a b. a @ ''/'' @ b),
       path_dirname = site_dirname, header = ''<!doctype html>'', stripComment = False \<rparr>"

definition no_stores :: stores where
  "no_stores = \<lparr> cache = Map.empty, asyncCache = Map.empty \<rparr>"

definition plain_options :: "jsobj \<Rightarrow> options" where
  "plain_options mdl = \<lparr> data = mdl, getTemplateFn = None \<rparr>"

section \<open>Reading the rewrite of partial calls\<close>

text \<open>
  What the rewrite is measured against, in terms of the text alone. A call has the form
  \<open>partial\<close>, white space, an opening parenthesis, a text without a closing
  parenthesis, and a closing parenthesis.
\<close>

definition call_text :: "string \<Rightarrow> string \<Rightarrow> string" where
  "call_text ws inner = ''partial'' @ ws @ ''('' @ inner @ '')''"

text \<open>The text \<open>pre\<close> ends at a word boundary before a following \<open>p\<close>.\<close>

definition at_word_boundary :: "string \<Rightarrow> bool" where
  "at_word_boundary pre = (pre = [] \<or> \<not> is_word (last pre))"

text \<open>
  The text \<open>pre\<close> ends with \<open>await\<close> and at least one white-space character: from
  some position \<open>n\<close> on it is white space, and the five characters before \<open>n\<close> are
  \<open>await\<close>.
\<close>

definition preceded_by_await :: "string \<Rightarrow> bool" where
  "preceded_by_await pre =
     list_ex (\<lambda>n. 5 \<le> n \<and> take 5 (drop (n - 5) pre) = ''await'' \<and> list_all is_space (drop n pre))
       [0..<length pre]"

text \<open>
  The call \<open>call_text ws inner\<close> that follows the text \<open>pre\<close> is one that the rewrite
  applies to.
\<close>

definition is_match :: "string \<Rightarrow> string \<Rightarrow> string \<Rightarrow> bool" where
  "is_match pre ws inner =
     (list_all is_space ws \<and> CHR '')'' \<notin> set inner \<and> at_word_boundary pre \<and> \<not> preceded_by_await pre)"

text \<open>
  No match of \<open>settings.partialAsync\<close> begins inside \<open>pre\<close>, a piece of text that is
  preceded by \<open>before_rev\<close> (in reverse) and followed by \<open>rest\<close>.
\<close>

fun no_match_in :: "string \<Rightarrow> string \<Rightarrow> string \<Rightarrow> bool" where
  "no_match_in before_rev [] rest = True"
| "no_match_in before_rev (c # cs) rest =
     (match_partialAsync before_rev (c # cs @ rest) = None \<and> no_match_in (c # before_rev) cs rest)"


section \<open>Reading the arguments of a section\<close>

text \<open>\<open>model._locals\<close>, or an empty object.\<close>

definition locals_or_empty :: "jsobj \<Rightarrow> jsval" where
  "locals_or_empty mdl = (if truthy (get mdl ''_locals'') then get mdl ''_locals'' else VObj [])"

text \<open>
  One value for each shortcut, in order: the entry of \<open>model._locals\<close> that the
  shortcut's path names when that entry is truthy, \<open>null\<close> otherwise.
\<close>

definition spec_shortcut_values :: "jsval \<Rightarrow> jsval \<Rightarrow> jsval list" where
  "spec_shortcut_values sc locals =
     map (\<lambda>shortcut.
            let entry = get (own_props locals) (to_str (get (own_props sc) shortcut))
            in if truthy entry then entry else VNull)
       (map fst (own_props sc))"

text \<open>
  The argument list as the specification gives it: the layout model, the partial helper,
  the locals (or an empty object), the model, then the view-data values and the shortcut
  values, in order.
\<close>

definition spec_arguments :: "Template \<Rightarrow> jsobj \<Rightarrow> jsobj \<Rightarrow> arg list" where
  "spec_arguments t layoutModel mdl =
     [AVal (VObj layoutModel), AHelper layoutModel mdl, AVal (locals_or_empty mdl), AVal (VObj mdl)]
     @ map AVal (viewData t)
     @ map AVal (spec_shortcut_values (shortcuts t) (get mdl ''_locals''))"

text \<open>
  \<open>model._locals\<close> can be read when there is a shortcut to look up: it is neither
  \<open>undefined\<close> nor \<open>null\<close>.
\<close>

definition locals_readable :: "Template \<Rightarrow> jsobj \<Rightarrow> bool" where
  "locals_readable t mdl =
     (own_props (shortcuts t) = [] \<or> (get mdl ''_locals'' \<noteq> VUndef \<and> get mdl ''_locals'' \<noteq> VNull))"

text \<open>
  No value stands twice in the list: no primitive value is repeated among the locals, the
  view-data values and the shortcut values, and no two shortcuts have the same path (they
  would name one entry).
\<close>

definition no_value_twice :: "Template \<Rightarrow> jsobj \<Rightarrow> bool" where
  "no_value_twice t mdl =
     (distinct (filter is_primitive
                 (locals_or_empty mdl # viewData t
                  @ spec_shortcut_values (shortcuts t) (get mdl ''_locals''))) \<and>
      distinct (map (\<lambda>shortcut. to_str (get (own_props (shortcuts t)) shortcut))
                 (map fst (own_props (shortcuts t)))))"

section \<open>The cache stores\<close>

text \<open>
  The two stores keep the modes apart: the sync store holds sync templates only, the
  async store async templates only.
\<close>

definition stores_ok :: "stores \<Rightarrow> bool" where
  "stores_ok st =
     ((\<forall>file t. cache st file = Some t \<longrightarrow> \<not> isAsync t) \<and>
      (\<forall>file t. asyncCache st file = Some t \<longrightarrow> isAsync t))"

text \<open>
  The render operations of the module, each with the options it is called with, and a
  sequence of them run one after the other on the stores.
\<close>

datatype operation =
    RenderSync string options
  | RenderAsync string options
  | RenderString string options
  | RenderStringAsync string options

fun perform :: "env \<Rightarrow> nat \<Rightarrow> operation \<Rightarrow> stores \<Rightarrow> string outcome" where
  "perform env n (RenderSync path opts) st = renderSync env n path opts st"
| "perform env n (RenderAsync path opts) st = engine_renderAsync env n path opts st"
| "perform env n (RenderString str opts) st = renderString env n str opts st"
| "perform env n (RenderStringAsync str opts) st = renderStringAsync env n str opts st"

fun op_options :: "operation \<Rightarrow> options" where
  "op_options (RenderSync path opts) = opts"
| "op_options (RenderAsync path opts) = opts"
| "op_options (RenderString str opts) = opts"
| "op_options (RenderStringAsync str opts) = opts"

fun op_async :: "operation \<Rightarrow> bool" where
  "op_async (RenderSync path opts) = False"
| "op_async (RenderAsync path opts) = True"
| "op_async (RenderString str opts) = False"
| "op_async (RenderStringAsync str opts) = True"

fun perform_all :: "env \<Rightarrow> nat \<Rightarrow> operation list \<Rightarrow> stores \<Rightarrow> stores option" where
  "perform_all env n [] st = Some st"
| "perform_all env n (x # xs) st =
     (case perform env n x st of
        None \<Rightarrow> None
      | Some (r, st') \<Rightarrow> perform_all env n xs st')"

text \<open>
  Properties of the steps that a render takes on the stores, used in the proofs: a
  relation that holds from the stores before a step to the stores after it, and a
  function that gives the same result on all stores and leaves them as they are.
\<close>

definition step_rel :: "(stores \<Rightarrow> stores \<Rightarrow> bool) \<Rightarrow> partial_fn \<Rightarrow> bool" where
  "step_rel R call =
     ((\<forall>s. R s s) \<and> (\<forall>a b c. R a b \<longrightarrow> R b c \<longrightarrow> R a c) \<and>
      (\<forall>h p a s r h' s'. call h p a s = Some (r, h', s') \<longrightarrow> R s s'))"

definition sync_step :: "stores \<Rightarrow> stores \<Rightarrow> bool" where
  "sync_step st st' = (stores_ok st \<longrightarrow> stores_ok st' \<and> asyncCache st' = asyncCache st)"

definition async_step :: "stores \<Rightarrow> stores \<Rightarrow> bool" where
  "async_step st st' = (stores_ok st \<longrightarrow> stores_ok st' \<and> cache st' = cache st)"

definition sync_renderer :: "renderer \<Rightarrow> bool" where
  "sync_renderer rsync =
     (\<forall>t ro s r s'. \<not> isAsync t \<longrightarrow> rsync t ro s = Some (r, s') \<longrightarrow> sync_step s s')"

definition async_renderer :: "renderer \<Rightarrow> bool" where
  "async_renderer rasync =
     (\<forall>t ro s r s'. isAsync t \<longrightarrow> rasync t ro s = Some (r, s') \<longrightarrow> async_step s s')"

definition ignores_stores :: "(stores \<Rightarrow> ('a \<times> stores) option) \<Rightarrow> bool" where
  "ignores_stores F = (\<exists>x. \<forall>st. F st = map_option (\<lambda>v. (v, st)) x)"

definition call_ignores_stores :: "partial_fn \<Rightarrow> bool" where
  "call_ignores_stores call =
     (\<forall>h p a. \<exists>y. \<forall>st. call h p a st = map_option (\<lambda>(r, h'). (r, h', st)) y)"

definition uncached_renderer :: "renderer \<Rightarrow> bool" where
  "uncached_renderer r = (\<forall>t ro. \<not> cacheTemplate (express t) \<longrightarrow> ignores_stores (r t ro))"


section \<open>Properties\<close>

subsection \<open>Objects\<close>

lemma get_Nil [simp]: "get [] k = VUndef"
  by (simp add: get_def)

lemma get_Cons [simp]: "get ((k', v) # r) k = (if k = k' then v else get r k)"
  by (simp add: get_def)

lemma has_Nil [simp]: "has [] k = False"
  by (simp add: has_def)

lemma has_Cons [simp]: "has ((k', v) # r) k = (k = k' \<or> has r k)"
  by (auto simp add: has_def)

lemma has_append [simp]: "has (a @ b) k = (has a k \<or> has b k)"
  by (auto simp: has_def)

lemma get_put [simp]: "get (put obj k v) k' = (if k' = k then v else get obj k')"
  by (induction obj) auto

lemma has_put [simp]: "has (put obj k v) k' = (k' = k \<or> has obj k')"
  by (induction obj) (auto split: if_splits)

lemma not_has_get: "\<not> has obj k \<Longrightarrow> get obj k = VUndef"
  by (induction obj) auto

lemma put_new: "\<not> has obj k \<Longrightarrow> put obj k v = obj @ [(k, v)]"
  by (induction obj) auto

lemma wf_val_Cons:
  "wf_val (VObj ((k, v) # src)) = (\<not> has src k \<and> wf_val v \<and> wf_val (VObj src))"
  by (auto simp: has_def)

subsection \<open>The seed of the layout model\<close>

lemma merge_into_fresh:
  "wf_val (VObj src) \<Longrightarrow> (\<forall>k. has src k \<longrightarrow> \<not> has obj k) \<Longrightarrow> merge_into obj src = obj @ src"
  by (induction obj src rule: merge_into.induct)
     (auto simp del: wf_val.simps simp add: wf_val_Cons put_new not_has_get)

lemma merge_into_empty: "wf_val (VObj obj) \<Longrightarrow> merge_into [] obj = obj"
  using merge_into_fresh[of obj "[]"] by simp

lemma get_merge_into:
  "distinct (map fst src) \<Longrightarrow>
   get (merge_into obj src) k =
     (case get src k of
        VObj so \<Rightarrow> VObj (merge_into (case get obj k of VObj oo \<Rightarrow> oo | _ \<Rightarrow> []) so)
      | VUndef \<Rightarrow> get obj k
      | v \<Rightarrow> v)"
proof (induction src arbitrary: obj)
  case Nil
  then show ?case by simp
next
  case (Cons a src)
  obtain k' v where a: "a = (k', v)" by (cases a)
  from Cons.prems a have d: "distinct (map fst src)" and nk: "\<not> has src k'"
    by (auto simp: has_def)
  show ?case
    using a Cons.IH[OF d] nk by (cases v) (auto simp: not_has_get split: jsval.splits)
qed

text \<open>
  C7, as the code has it. \<open>_.merge\<close> is lodash's recursive merge, so the claim as stated
  (the config's value replaces the caller's under every key of the config, nothing
  deeper) fails where both hold an object under one key: the two objects are merged.
\<close>

theorem C7_seed_counterexample:
  "has [(''meta'', VObj [(''b'', VNum 2)])] ''meta'' \<and>
   get (seed_layoutModel [(''meta'', VObj [(''a'', VNum 1)])] (VObj [(''meta'', VObj [(''b'', VNum 2)])])) ''meta''
     = VObj [(''a'', VNum 1), (''b'', VNum 2)] \<and>
   get (seed_layoutModel [(''meta'', VObj [(''a'', VNum 1)])] (VObj [(''meta'', VObj [(''b'', VNum 2)])])) ''meta''
     \<noteq> get [(''meta'', VObj [(''b'', VNum 2)])] ''meta''"
  by (simp add: seed_layoutModel_def lodash_merge_def)

text \<open>
  C7, amended: at the start of every render the layout model is the recursive merge of
  the caller's layout and the template's config. Under every top-level key it holds the
  caller's value when the config has no value there (the key is absent or holds
  \<open>undefined\<close>), the config's value when that is \<open>null\<close>, a boolean, a number or a
  string, and, when the config's value is an object, the merge of that object into the
  caller's object under the key (into an empty object when the caller holds no object
  there).
\<close>

theorem C7_seed_layoutModel:
  assumes "wf_val (VObj lay)" and "distinct (map fst conf)"
  shows "get (seed_layoutModel lay (VObj conf)) k =
     (case get conf k of
        VObj so \<Rightarrow> VObj (merge_into (case get lay k of VObj lo \<Rightarrow> lo | _ \<Rightarrow> []) so)
      | VUndef \<Rightarrow> get lay k
      | v \<Rightarrow> v)"
  using assms
  by (simp add: seed_layoutModel_def lodash_merge_def merge_into_empty get_merge_into
      del: wf_val.simps)

theorem C7_seed_layoutModel_witness:
  "wf_val (VObj [(''title'', VStr ''t''), (''meta'', VObj [(''a'', VNum 1)])]) \<and>
   distinct (map fst [(''layout'', VStr ''master.dot''), (''meta'', VObj [(''b'', VNum 2)])]) \<and>
   get (seed_layoutModel [(''title'', VStr ''t''), (''meta'', VObj [(''a'', VNum 1)])]
          (VObj [(''layout'', VStr ''master.dot''), (''meta'', VObj [(''b'', VNum 2)])])) ''meta''
     = VObj [(''a'', VNum 1), (''b'', VNum 2)]"
  using C7_seed_layoutModel
    [of "[(''title'', VStr ''t''), (''meta'', VObj [(''a'', VNum 1)])]"
        "[(''layout'', VStr ''master.dot''), (''meta'', VObj [(''b'', VNum 2)])]" "''meta''"]
  by simp


subsection \<open>The regular expressions\<close>

lemma split_first_decomp:
  "split_first pat s = Some (before, after) \<Longrightarrow> s = before @ pat @ after"
proof (induction s arbitrary: before)
  case Nil
  then show ?case by (auto split: if_splits)
next
  case (Cons c cs)
  show ?case
  proof (cases "starts_with pat (c # cs)")
    case True
    then have "c # cs = pat @ drop (length pat) (c # cs)"
      unfolding starts_with_def by (metis append_take_drop_id)
    with True Cons.prems show ?thesis by auto
  next
    case False
    with Cons show ?thesis by (auto split: option.splits)
  qed
qed

lemma starts_with_decomp: "starts_with pat s \<Longrightarrow> s = pat @ drop (length pat) s"
  unfolding starts_with_def by (metis append_take_drop_id)

lemma match_config_decomp:
  "match_config str = Some fm \<Longrightarrow> \<exists>rest. str = ''---'' @ fm @ ''---'' @ rest \<and> fm \<noteq> []"
proof -
  assume m: "match_config str = Some fm"
  then have sw: "starts_with ''---'' str"
    by (auto simp: match_config_def split: if_splits)
  from m sw obtain c r conf after where d: "drop 3 str = c # r"
    and sp: "split_first ''---'' r = Some (conf, after)" and fm: "fm = c # conf"
    by (auto simp: match_config_def split: list.splits option.splits)
  from starts_with_decomp[OF sw] d have "str = ''---'' @ c # r" by (simp add: numeral_eq_Suc)
  with split_first_decomp[OF sp] fm show ?thesis by auto
qed



lemma match_call_decomp:
  assumes "match_call s = Some (m, post)"
  shows "s = m @ post \<and>
         (\<exists>ws a. m = ''partial'' @ ws @ ''('' @ a @ '')'' \<and> list_all is_space ws \<and> CHR '')'' \<notin> set a)"
proof -
  have sw: "starts_with ''partial'' s"
    using assms unfolding match_call_def by (simp split: if_splits)
  define d where "d = drop 7 s"
  define ws where "ws = takeWhile is_space d"
  define r1 where "r1 = dropWhile is_space d"
  have mc: "(case r1 of [] \<Rightarrow> None
            | p # r2 \<Rightarrow>
                if p = CHR ''('' then
                  (case dropWhile (\<lambda>c. c \<noteq> CHR '')'') r2 of
                     [] \<Rightarrow> None
                   | q # after \<Rightarrow>
                       Some (''partial'' @ ws @ [p] @ takeWhile (\<lambda>c. c \<noteq> CHR '')'') r2 @ [q],
                             after))
                else None) = Some (m, post)"
    using assms sw unfolding match_call_def Let_def d_def ws_def r1_def by simp
  then obtain p r2 where r1: "r1 = p # r2" by (cases r1) simp_all
  with mc have p: "p = CHR ''(''" by (simp split: if_splits)
  define a where "a = takeWhile (\<lambda>c. c \<noteq> CHR '')'') r2"
  from mc r1 p obtain q where r3: "dropWhile (\<lambda>c. c \<noteq> CHR '')'') r2 = q # post"
    and m: "m = ''partial'' @ ws @ ''('' @ a @ [q]"
    by (cases "dropWhile (\<lambda>c. c \<noteq> CHR '')'') r2") (simp_all add: a_def)
  have "dropWhile (\<lambda>c. c \<noteq> CHR '')'') r2 \<noteq> []" using r3 by simp
  from hd_dropWhile[OF this] have q: "q = CHR '')''" using r3 by simp
  have "s = ''partial'' @ d" using starts_with_decomp[OF sw] by (simp add: d_def numeral_eq_Suc)
  also have "d = ws @ r1" by (simp add: ws_def r1_def)
  also have "r1 = ''('' @ a @ dropWhile (\<lambda>c. c \<noteq> CHR '')'') r2"
    using r1 p by (simp add: a_def)
  finally have "s = m @ post" using m r3 by simp
  moreover have "list_all is_space ws" by (auto simp: ws_def list_all_iff dest: set_takeWhileD)
  moreover have "CHR '')'' \<notin> set a"
    by (auto simp: a_def dest: set_takeWhileD)
  ultimately show ?thesis using m q by blast
qed



subsection \<open>The parser\<close>

text \<open>
  C5, as stated, fails: \<open>str.replace(settings.config, ...)\<close> reads the front matter and
  its result is dropped, so the text keeps the block. For the text
  \<open>---\<newline>title: t\<newline>---\<newline>hello\<close> the body section is the whole text, not \<open>\<newline>hello\<close>.
\<close>

theorem C5_body_counterexample: "match_config ''---\<newline>title: t\<newline>---\<newline>hello'' = Some ''\<newline>title: t\<newline>'' \<and>
   processTemplateString site ''---\<newline>title: t\<newline>---\<newline>hello'' (plain_options []) False =
     Inr (VObj [(''title'', VStr ''t'')], [(''body'', ''---\<newline>title: t\<newline>---\<newline>hello'')],
          pick_settings (plain_options [])) \<and>
   ''---\<newline>title: t\<newline>---\<newline>hello'' = ''---'' @ ''\<newline>title: t\<newline>'' @ ''---'' @ ''\<newline>hello'' \<and>
   ''---\<newline>title: t\<newline>---\<newline>hello'' \<noteq> ''\<newline>hello''"
  by (simp add: processTemplateString_def match_config_def starts_with_def site_def site_yaml_def
      read_prop_def partial_rewriter_def)


text \<open>
  C5, amended: for a text with a leading front-matter block whose parsed config has no
  \<open>layout\<close> key, the parser's sole section is \<open>body\<close>, and it holds the whole text,
  front-matter block included (after the comments are stripped when
  \<open>settings.stripComment\<close> is set, and after the rewrite of partial calls in async
  mode).
\<close>

theorem C5_body_keeps_front_matter:
  assumes "match_config str = Some fm" and "yaml_load env fm = Inr (VObj conf)"
    and "\<not> has conf ''layout''"
  shows "processTemplateString env str opts async =
           Inr (VObj conf,
                [(''body'', partial_rewriter async (if stripComment env then strip_comments str else str))],
                pick_settings opts) \<and>
         (\<exists>rest. str = ''---'' @ fm @ ''---'' @ rest)"
  using assms match_config_decomp[OF assms(1)]
  by (auto simp: processTemplateString_def read_prop_def not_has_get)


theorem C5_body_keeps_front_matter_witness:
  "match_config ''---\<newline>title: t\<newline>---\<newline>hello'' = Some ''\<newline>title: t\<newline>'' \<and>
   yaml_load site ''\<newline>title: t\<newline>'' = Inr (VObj [(''title'', VStr ''t'')]) \<and>
   \<not> has [(''title'', VStr ''t'')] ''layout'' \<and>
   processTemplateString site ''---\<newline>title: t\<newline>---\<newline>hello'' (plain_options []) True =
     Inr (VObj [(''title'', VStr ''t'')], [(''body'', ''---\<newline>title: t\<newline>---\<newline>hello'')],
          pick_settings (plain_options []))"
  using C5_body_keeps_front_matter
    [where str = "''---\<newline>title: t\<newline>---\<newline>hello''" and fm = "''\<newline>title: t\<newline>''"
       and env = site and conf = "[(''title'', VStr ''t'')]" and opts = "plain_options []"
       and async = True]
  by (simp add: match_config_def starts_with_def site_def site_yaml_def partial_rewriter_def
      partialAsync_replace_def match_partialAsync_def match_call_def awaited_def
      word_boundary_def is_space_def is_word_def)




subsection \<open>The rewrite of partial calls\<close>

lemma match_partialAsync_Nil [simp]: "match_partialAsync b [] = None"
  by (simp add: match_partialAsync_def match_call_def starts_with_def)

lemma partialAsync_from_first:
  "no_match_in b pre rest \<Longrightarrow> match_partialAsync (rev pre @ b) rest = Some (m, post) \<Longrightarrow>
   partialAsync_from b (pre @ rest) = pre @ ''await '' @ m @ partialAsync_from (rev m @ rev pre @ b) post"
proof (induction pre arbitrary: b)
  case Nil
  then show ?case by (cases rest) auto
next
  case (Cons c cs)
  then show ?case by simp
qed

lemma partialAsync_from_none:
  "no_match_in b s [] \<Longrightarrow> partialAsync_from b s = s"
  by (induction s arbitrary: b) auto

text \<open>
  The scanner and the reading of the text agree: the look-behind, the word boundary and
  the call are found by the scanner exactly where the text has them.
\<close>

lemma takeWhile_stop: "\<forall>c \<in> set xs. P c \<Longrightarrow> \<not> P y \<Longrightarrow> takeWhile P (xs @ y # ys) = xs"
  by (induction xs) auto

lemma dropWhile_stop: "\<forall>c \<in> set xs. P c \<Longrightarrow> \<not> P y \<Longrightarrow> dropWhile P (xs @ y # ys) = y # ys"
  by (induction xs) auto

lemma preceded_by_await_iff:
  "preceded_by_await pre \<longleftrightarrow> (\<exists>p w. pre = p @ ''await'' @ w \<and> w \<noteq> [] \<and> list_all is_space w)"
proof
  assume "preceded_by_await pre"
  then obtain n where n: "n < length pre" "5 \<le> n" "take 5 (drop (n - 5) pre) = ''await''"
      "list_all is_space (drop n pre)"
    by (auto simp: preceded_by_await_def list_ex_iff)
  define x where "x = drop (n - 5) pre"
  have "drop 5 x = drop n pre" using n(2) by (simp add: x_def)
  moreover have "x = take 5 x @ drop 5 x" by (rule append_take_drop_id[symmetric])
  ultimately have "x = ''await'' @ drop n pre" using n(3) by (simp add: x_def)
  moreover have "pre = take (n - 5) pre @ x" by (simp add: x_def)
  ultimately have "pre = take (n - 5) pre @ ''await'' @ drop n pre" by simp
  moreover have "drop n pre \<noteq> []" using n(1) by simp
  ultimately show "\<exists>p w. pre = p @ ''await'' @ w \<and> w \<noteq> [] \<and> list_all is_space w"
    using n(4) by blast
next
  assume "\<exists>p w. pre = p @ ''await'' @ w \<and> w \<noteq> [] \<and> list_all is_space w"
  then obtain p w where pw: "pre = p @ ''await'' @ w" "w \<noteq> []" "list_all is_space w" by blast
  define n where "n = length p + 5"
  have "n < length pre" using pw by (simp add: n_def)
  moreover have "5 \<le> n" by (simp add: n_def)
  moreover have "take 5 (drop (n - 5) pre) = ''await''" using pw by (simp add: n_def)
  moreover have "drop n pre = w" using pw by (simp add: n_def)
  ultimately show "preceded_by_await pre" using pw(3)
    by (auto simp: preceded_by_await_def list_ex_iff)
qed

lemma word_boundary_rev: "word_boundary (rev pre) = at_word_boundary pre"
  by (cases pre rule: rev_cases) (simp_all add: word_boundary_def at_word_boundary_def)

lemma awaited_rev: "awaited (rev pre) = preceded_by_await pre"
proof
  assume a: "awaited (rev pre)"
  define w where "w = takeWhile is_space (rev pre)"
  define d where "d = dropWhile is_space (rev pre)"
  from a have w: "w \<noteq> []" and s: "starts_with ''tiawa'' d" by (simp_all add: awaited_def w_def d_def)
  from starts_with_decomp[OF s] obtain q where q: "d = ''tiawa'' @ q" by auto
  have "rev pre = w @ d" by (simp add: w_def d_def)
  then have "pre = rev d @ rev w" by (metis rev_append rev_rev_ident)
  with q have "pre = rev q @ ''await'' @ rev w" by simp
  moreover have "list_all is_space (rev w)" by (auto simp: w_def list_all_iff dest: set_takeWhileD)
  ultimately show "preceded_by_await pre" using w unfolding preceded_by_await_iff
    by (metis rev_is_Nil_conv)
next
  assume "preceded_by_await pre"
  then obtain p w where pw: "pre = p @ ''await'' @ w" "w \<noteq> []" "list_all is_space w"
    unfolding preceded_by_await_iff by blast
  have r: "rev pre = rev w @ ''tiawa'' @ rev p" using pw(1) by simp
  have sp: "\<forall>c \<in> set (rev w). is_space c" using pw(3) by (simp add: list_all_iff)
  have nt: "\<not> is_space CHR ''t''" by (simp add: is_space_def)
  have "takeWhile is_space (rev pre) = rev w" unfolding r using takeWhile_stop[OF sp nt]
    by simp
  moreover have "dropWhile is_space (rev pre) = ''tiawa'' @ rev p" unfolding r
    using dropWhile_stop[OF sp nt] by simp
  ultimately show "awaited (rev pre)" using pw(2) by (simp add: awaited_def starts_with_def)
qed

lemma match_call_complete:
  assumes "list_all is_space ws" and "CHR '')'' \<notin> set inner"
  shows "match_call (call_text ws inner @ rest) = Some (call_text ws inner, rest)"
proof -
  have d: "drop 7 (call_text ws inner @ rest) = ws @ ''('' @ inner @ '')'' @ rest"
    by (simp add: call_text_def)
  have sp: "\<forall>c \<in> set ws. is_space c" using assms(1) by (simp add: list_all_iff)
  have np: "\<not> is_space CHR ''(''" by (simp add: is_space_def)
  have tw: "takeWhile is_space (ws @ ''('' @ inner @ '')'' @ rest) = ws"
    using takeWhile_stop[OF sp np] by simp
  have dw: "dropWhile is_space (ws @ ''('' @ inner @ '')'' @ rest) = ''('' @ inner @ '')'' @ rest"
    using dropWhile_stop[OF sp np] by simp
  have ni: "\<forall>c \<in> set inner. c \<noteq> CHR '')''" using assms(2) by auto
  have ti: "takeWhile (\<lambda>c. c \<noteq> CHR '')'') (inner @ '')'' @ rest) = inner"
    using takeWhile_stop[OF ni, of "CHR '')''"] by simp
  have di: "dropWhile (\<lambda>c. c \<noteq> CHR '')'') (inner @ '')'' @ rest) = '')'' @ rest"
    using dropWhile_stop[OF ni, of "CHR '')''"] by simp
  have sw: "starts_with ''partial'' (call_text ws inner @ rest)"
    by (simp add: starts_with_def call_text_def)
  show ?thesis
    unfolding match_call_def Let_def d tw dw using sw ti di
    by (simp add: call_text_def)
qed

lemma match_partialAsync_iff:
  "match_partialAsync (rev pre) s = Some (m, post) \<longleftrightarrow>
     (\<exists>ws inner. m = call_text ws inner \<and> s = m @ post \<and> is_match pre ws inner)"
proof
  assume a: "match_partialAsync (rev pre) s = Some (m, post)"
  then have c: "match_call s = Some (m, post)" and w: "word_boundary (rev pre)"
    and n: "\<not> awaited (rev pre)"
    by (auto simp: match_partialAsync_def split: if_splits)
  from match_call_decomp[OF c] w n
  show "\<exists>ws inner. m = call_text ws inner \<and> s = m @ post \<and> is_match pre ws inner"
    by (auto simp: is_match_def call_text_def word_boundary_rev awaited_rev)
next
  assume "\<exists>ws inner. m = call_text ws inner \<and> s = m @ post \<and> is_match pre ws inner"
  then obtain ws inner where m: "m = call_text ws inner" "s = m @ post" and i: "is_match pre ws inner"
    by blast
  from i have "list_all is_space ws" "CHR '')'' \<notin> set inner" by (simp_all add: is_match_def)
  from match_call_complete[OF this] i m
  show "match_partialAsync (rev pre) s = Some (m, post)"
    by (simp add: match_partialAsync_def is_match_def word_boundary_rev awaited_rev)
qed

lemma no_match_in_iff:
  "no_match_in b p r \<longleftrightarrow>
     (\<forall>p1 p2. p = p1 @ p2 \<and> p2 \<noteq> [] \<longrightarrow> match_partialAsync (rev p1 @ b) (p2 @ r) = None)"
proof (induction p arbitrary: b)
  case Nil
  then show ?case by simp
next
  case (Cons c cs)
  show ?case
  proof
    assume a: "no_match_in b (c # cs) r"
    then have h: "match_partialAsync b (c # cs @ r) = None" and t: "no_match_in (c # b) cs r"
      by simp_all
    show "\<forall>p1 p2. c # cs = p1 @ p2 \<and> p2 \<noteq> [] \<longrightarrow> match_partialAsync (rev p1 @ b) (p2 @ r) = None"
    proof (intro allI impI)
      fix p1 p2 assume s: "c # cs = p1 @ p2 \<and> p2 \<noteq> []"
      show "match_partialAsync (rev p1 @ b) (p2 @ r) = None"
      proof (cases p1)
        case Nil
        with s have "p2 = c # cs" by simp
        with h Nil show ?thesis by simp
      next
        case (Cons d p1')
        with s have "cs = p1' @ p2" "d = c" "p2 \<noteq> []" by simp_all
        with t Cons.IH[of "c # b"] Cons show ?thesis by simp
      qed
    qed
  next
    assume a: "\<forall>p1 p2. c # cs = p1 @ p2 \<and> p2 \<noteq> [] \<longrightarrow> match_partialAsync (rev p1 @ b) (p2 @ r) = None"
    from a[rule_format, of "[]" "c # cs"] have h: "match_partialAsync b (c # cs @ r) = None" by simp
    have "match_partialAsync (rev p1 @ c # b) (p2 @ r) = None" if "cs = p1 @ p2" "p2 \<noteq> []" for p1 p2
      using a[rule_format, of "c # p1" p2] that by simp
    then have "no_match_in (c # b) cs r" using Cons.IH[of "c # b"] by blast
    with h show "no_match_in b (c # cs) r" by simp
  qed
qed

lemma starts_with_append:
  "length pat \<le> length y \<Longrightarrow> starts_with pat (y @ z) = starts_with pat y"
  by (simp add: starts_with_def)

lemma starts_with_short: "length y < length pat \<Longrightarrow> \<not> starts_with pat y"
  by (auto simp: starts_with_def dest: arg_cong[where f = length])

lemma starts_with_tiawa_ctx:
  assumes "\<not> is_word c"
  shows "starts_with ''tiawa'' (y @ c # b) = starts_with ''tiawa'' y"
proof (cases "5 \<le> length y")
  case True
  then show ?thesis by (intro starts_with_append) simp
next
  case False
  then have l: "length y < 5" by simp
  then have r: "\<not> starts_with ''tiawa'' y"
    by (intro starts_with_short) simp
  have "\<not> starts_with ''tiawa'' (y @ c # b)"
  proof
    assume "starts_with ''tiawa'' (y @ c # b)"
    then have "take (length ''tiawa'') (y @ c # b) = ''tiawa''" unfolding starts_with_def .
    moreover have "length ''tiawa'' = 5" by simp
    ultimately have e: "take 5 (y @ c # b) = ''tiawa''" by metis
    have "take 5 (y @ c # b) = y @ take (5 - length y) (c # b)" using l by simp
    also have "take (5 - length y) (c # b) = c # take (4 - length y) b"
    proof -
      from l have "5 - length y = Suc (4 - length y)" by simp
      then show ?thesis by simp
    qed
    finally have "c \<in> set (take 5 (y @ c # b))" by simp
    with e have "c \<in> set ''tiawa''" by simp
    with assms(1) show False by (auto simp: is_word_def)
  qed
  with r show ?thesis by simp
qed

lemma awaited_ctx:
  assumes "\<not> is_word c" and "\<not> is_space c"
  shows "awaited (x @ c # b) = awaited x"
proof (cases "\<forall>ch \<in> set x. is_space ch")
  case True
  have d: "dropWhile is_space (x @ c # b) = c # b"
    using dropWhile_stop[OF True assms(2)] .
  have n: "\<not> starts_with ''tiawa'' (c # b)"
    using starts_with_tiawa_ctx[OF assms(1), of "[]" b] starts_with_short[of "[]" "''tiawa''"]
    by simp
  have e: "dropWhile is_space x = []" using True by simp
  have "\<not> starts_with ''tiawa'' []" by (rule starts_with_short) simp
  then have "\<not> awaited x" unfolding awaited_def e by simp
  moreover have "\<not> awaited (x @ c # b)" unfolding awaited_def d using n by simp
  ultimately show ?thesis by simp
next
  case False
  then obtain ch where ch: "ch \<in> set x" "\<not> is_space ch" by blast
  have "takeWhile is_space (x @ c # b) = takeWhile is_space x"
    using ch by (rule takeWhile_append1)
  moreover have "dropWhile is_space (x @ c # b) = dropWhile is_space x @ c # b"
    using ch by (rule dropWhile_append1)
  ultimately show ?thesis
    using starts_with_tiawa_ctx[OF assms(1), of "dropWhile is_space x" b]
    by (simp add: awaited_def)
qed

lemma word_boundary_ctx:
  "\<not> is_word c \<Longrightarrow> word_boundary (x @ c # b) = word_boundary x"
  by (cases x) (simp_all add: word_boundary_def)

lemma match_partialAsync_ctx:
  "\<not> is_word c \<Longrightarrow> \<not> is_space c \<Longrightarrow> match_partialAsync (x @ c # b) s = match_partialAsync x s"
  by (simp add: match_partialAsync_def awaited_ctx word_boundary_ctx)

lemma partialAsync_from_ctx:
  "\<not> is_word c \<Longrightarrow> \<not> is_space c \<Longrightarrow> partialAsync_from (x @ c # b) s = partialAsync_from x s"
proof (induction x s rule: partialAsync_from.induct)
  case (1 before_rev)
  then show ?case by simp
next
  case (2 before_rev ch cs)
  show ?case
  proof (cases "match_partialAsync before_rev (ch # cs)")
    case None
    with 2 show ?thesis by (simp add: match_partialAsync_ctx)
  next
    case (Some a)
    obtain m after where a: "a = (m, after)" by (cases a)
    from "2.IH"(2)[OF Some a[symmetric] "2.prems"] Some a "2.prems" show ?thesis
      by (simp add: match_partialAsync_ctx)
  qed
qed

lemma partialAsync_from_after_call:
  "partialAsync_from (rev (pre @ call_text ws inner)) s = partialAsync_from [] s"
proof -
  have "rev (pre @ call_text ws inner) = [] @ CHR '')'' # rev (pre @ ''partial'' @ ws @ ''('' @ inner)"
    by (simp add: call_text_def)
  moreover have "\<not> is_word CHR '')''" "\<not> is_space CHR '')''" by (simp_all add: is_word_def is_space_def)
  ultimately show ?thesis using partialAsync_from_ctx by metis
qed

lemma no_match_in_textual:
  assumes "no_match_in [] pre s"
    and "pre @ s = pre' @ call_text ws inner @ rest" and "is_match pre' ws inner"
  shows "length pre \<le> length pre'"
proof (rule ccontr)
  assume "\<not> length pre \<le> length pre'"
  then have l: "length pre' < length pre" by simp
  from assms(2) have "take (length pre') (pre @ s) = pre'" by simp
  with l have p: "pre' = take (length pre') pre" by simp
  define p2 where "p2 = drop (length pre') pre"
  have pre: "pre = pre' @ p2" using p by (metis append_take_drop_id p2_def)
  have ne: "p2 \<noteq> []" using l by (simp add: p2_def)
  from assms(2) pre have e: "p2 @ s = call_text ws inner @ rest" by simp
  from assms(1) pre ne have "match_partialAsync (rev pre' @ []) (p2 @ s) = None"
    unfolding no_match_in_iff by blast
  moreover have "match_partialAsync (rev pre') (p2 @ s) = Some (call_text ws inner, rest)"
    unfolding match_partialAsync_iff using e assms(3) by blast
  ultimately show False by simp
qed

lemma textual_no_match_in:
  assumes "\<forall>pre' ws' inner' rest'. pre @ s = pre' @ call_text ws' inner' @ rest' \<and>
             is_match pre' ws' inner' \<longrightarrow> length pre \<le> length pre'"
  shows "no_match_in [] pre s"
  unfolding no_match_in_iff
proof (intro allI impI)
  fix p1 p2 assume s: "pre = p1 @ p2 \<and> p2 \<noteq> []"
  show "match_partialAsync (rev p1 @ []) (p2 @ s) = None"
  proof (cases "match_partialAsync (rev p1) (p2 @ s)")
    case None
    then show ?thesis by simp
  next
    case (Some a)
    obtain m post where a: "a = (m, post)" by (cases a)
    from Some[unfolded a match_partialAsync_iff] obtain ws inner where
      m: "m = call_text ws inner" "p2 @ s = m @ post" "is_match p1 ws inner" by blast
    from s m have "pre @ s = p1 @ call_text ws inner @ post" by simp
    with assms m(3) have "length pre \<le> length p1" by blast
    with s show ?thesis by simp
  qed
qed

text \<open>
  C8, as stated, fails for a call inside the argument text of another call: the scan
  goes on after the closing parenthesis it found, so in \<open>partial(partial(x))\<close> the inner
  call, which is of the form \<open>partial(...)\<close>, begins at a word boundary and is not
  preceded by \<open>await\<close>, gets no \<open>await\<close>.
\<close>

theorem C8_partial_rewriter_counterexample:
  "partial_rewriter True ''partial(partial(x))'' = ''await partial(partial(x))'' \<and>
   ''partial(partial(x))'' = ''partial('' @ call_text [] ''x'' @ '')'' \<and>
   is_match ''partial('' [] ''x''"
  by code_simp


text \<open>
  C8, amended: in sync mode a section body is not rewritten. In async mode, a body in
  which no call \<open>partial\<close>, white space, \<open>(\<close>, a text without \<open>)\<close>, \<open>)\<close>
  stands at a word boundary without \<open>await\<close> and white space before it is left as it
  is. Otherwise, at the first position where such a call stands, \<open>await \<close> is put
  before the call, the text before it stays as it is, and what follows the call's closing
  parenthesis is rewritten in the same way (so a call inside the argument text of a
  rewritten call gets no \<open>await\<close>, and a call that is preceded by \<open>await\<close> and white
  space stays as it is).
\<close>

theorem C8_partial_rewriter:
  "partial_rewriter False body = body \<and>
   ((\<forall>pre ws inner rest. body = pre @ call_text ws inner @ rest \<longrightarrow> \<not> is_match pre ws inner) \<longrightarrow>
      partial_rewriter True body = body) \<and>
   (is_match pre ws inner \<and>
    (\<forall>pre' ws' inner' rest'.
        pre @ call_text ws inner @ rest = pre' @ call_text ws' inner' @ rest' \<and>
        is_match pre' ws' inner' \<longrightarrow> length pre \<le> length pre') \<longrightarrow>
      partial_rewriter True (pre @ call_text ws inner @ rest)
        = pre @ ''await '' @ call_text ws inner @ partial_rewriter True rest)"
proof (intro conjI impI)
  show "partial_rewriter False body = body" by (simp add: partial_rewriter_def)
next
  assume h: "\<forall>pre ws inner rest. body = pre @ call_text ws inner @ rest \<longrightarrow> \<not> is_match pre ws inner"
  have "\<forall>pre' ws' inner' rest'. body @ [] = pre' @ call_text ws' inner' @ rest' \<and>
             is_match pre' ws' inner' \<longrightarrow> length body \<le> length pre'"
    using h by auto
  from textual_no_match_in[OF this] show "partial_rewriter True body = body"
    by (simp add: partial_rewriter_def partialAsync_replace_def partialAsync_from_none)
next
  assume a: "is_match pre ws inner \<and>
    (\<forall>pre' ws' inner' rest'.
        pre @ call_text ws inner @ rest = pre' @ call_text ws' inner' @ rest' \<and>
        is_match pre' ws' inner' \<longrightarrow> length pre \<le> length pre')"
  then have n: "no_match_in [] pre (call_text ws inner @ rest)"
    by (intro textual_no_match_in) blast
  from a have i: "is_match pre ws inner" by blast
  have "match_partialAsync (rev pre) (call_text ws inner @ rest) = Some (call_text ws inner, rest)"
    unfolding match_partialAsync_iff using i by blast
  then have "match_partialAsync (rev pre @ []) (call_text ws inner @ rest)
      = Some (call_text ws inner, rest)" by simp
  from partialAsync_from_first[OF n this]
  have "partialAsync_from [] (pre @ call_text ws inner @ rest)
      = pre @ ''await '' @ call_text ws inner @ partialAsync_from (rev (pre @ call_text ws inner)) rest"
    by simp
  then show "partial_rewriter True (pre @ call_text ws inner @ rest)
        = pre @ ''await '' @ call_text ws inner @ partial_rewriter True rest"
    by (simp only: partial_rewriter_def partialAsync_replace_def partialAsync_from_after_call if_True)
qed

theorem C8_partial_rewriter_witness:
  "is_match ''[[= '' [] ''a, b'' \<and>
   preceded_by_await ''[[= await '' \<and>
   partial_rewriter True ''[[= partial(a, b) ]] [[= await partial(c) ]]''
     = ''[[= await partial(a, b) ]] [[= await partial(c) ]]'' \<and>
   partial_rewriter True '' ]] [[= await partial(c) ]]'' = '' ]] [[= await partial(c) ]]'' \<and>
   partial_rewriter False ''[[= partial(a, b) ]]'' = ''[[= partial(a, b) ]]''"
proof -
  have m: "is_match ''[[= '' [] ''a, b''" by code_simp
  have p: "preceded_by_await ''[[= await ''" by code_simp
  have n1: "no_match_in [] ''[[= '' (call_text [] ''a, b'' @ '' ]] [[= await partial(c) ]]'')"
    by code_simp
  have n2: "no_match_in [] '' ]] [[= await partial(c) ]]'' []" by code_simp
  have h1: "\<forall>pre' ws' inner' rest'.
        ''[[= '' @ call_text [] ''a, b'' @ '' ]] [[= await partial(c) ]]''
          = pre' @ call_text ws' inner' @ rest' \<and>
        is_match pre' ws' inner' \<longrightarrow> length ''[[= '' \<le> length pre'"
    using no_match_in_textual[OF n1] by blast
  have h2: "\<forall>pre ws inner rest. '' ]] [[= await partial(c) ]]'' = pre @ call_text ws inner @ rest
        \<longrightarrow> \<not> is_match pre ws inner"
  proof (intro allI impI notI)
    fix pre ws inner rest
    assume e: "'' ]] [[= await partial(c) ]]'' = pre @ call_text ws inner @ rest"
      and i: "is_match pre ws inner"
    from e have "'' ]] [[= await partial(c) ]]'' @ [] = pre @ call_text ws inner @ rest" by simp
    from no_match_in_textual[OF n2 this i]
    have "length (pre @ call_text ws inner @ rest) \<le> length pre" using e by simp
    then show False by (simp add: call_text_def)
  qed
  from C8_partial_rewriter[where body = "'' ]] [[= await partial(c) ]]''"] h2
  have r2: "partial_rewriter True '' ]] [[= await partial(c) ]]'' = '' ]] [[= await partial(c) ]]''"
    by blast
  from C8_partial_rewriter[where pre = "''[[= ''" and ws = "[]" and inner = "''a, b''"
      and rest = "'' ]] [[= await partial(c) ]]''"] m h1
  have "partial_rewriter True (''[[= '' @ call_text [] ''a, b'' @ '' ]] [[= await partial(c) ]]'')
      = ''[[= '' @ ''await '' @ call_text [] ''a, b'' @ partial_rewriter True '' ]] [[= await partial(c) ]]''"
    by blast
  with r2 have r1: "partial_rewriter True ''[[= partial(a, b) ]] [[= await partial(c) ]]''
     = ''[[= await partial(a, b) ]] [[= await partial(c) ]]''"
    by (simp add: call_text_def)
  have r3: "partial_rewriter False ''[[= partial(a, b) ]]'' = ''[[= partial(a, b) ]]''"
    using C8_partial_rewriter[where body = "''[[= partial(a, b) ]]''"] by blast
  from m p r1 r2 r3 show ?thesis by blast
qed


subsection \<open>What the builders return\<close>

lemma read_prop_Inr: "read_prop v k = Inr x \<Longrightarrow> x = get (own_props v) k"
  by (cases v) (auto simp: read_prop_def)

lemma processTemplateString_Inr:
  assumes "processTemplateString env str opts async = Inr (conf, secs, ts)"
  shows "ts = pick_settings opts"
    and "read_prop conf ''layout'' = Inr (get (own_props conf) ''layout'')"
    and "secs = (if \<not> truthy (get (own_props conf) ''layout'')
                 then [(''body'', partial_rewriter async (if stripComment env then strip_comments str else str))]
                 else foldl (\<lambda>secs (code, v). set_section secs code (partial_rewriter async v)) []
                        (define_matches (if stripComment env then strip_comments str else str)))"
  using assms
  by (auto simp: processTemplateString_def Let_def split: sum.splits dest: read_prop_Inr)

lemma init_Inr:
  "init env t = Inr t' \<Longrightarrow>
   \<exists>fs. t' = t\<lparr>templates := fs\<rparr> \<and>
        compile_sections (dot_template env) (varname t) (sections t) [] = Inr fs"
  by (auto simp: init_def split: if_splits sum.splits)

lemma initAsync_Inr:
  "initAsync env t = Inr t' \<Longrightarrow>
   \<exists>fs. t' = t\<lparr>templates := fs\<rparr> \<and>
        compile_sections (dot_templateAsync env) (varname t) (sections t) [] = Inr fs"
  by (auto simp: initAsync_def split: if_splits sum.splits)

lemma template_fields_simps [simp]:
  "express (template_fields ex conf secs dir file async lay mst) = ex"
  "config (template_fields ex conf secs dir file async lay mst) = conf"
  "sections (template_fields ex conf secs dir file async lay mst) = secs"
  "dirname (template_fields ex conf secs dir file async lay mst) = dir"
  "filename (template_fields ex conf secs dir file async lay mst) = file"
  "isAsync (template_fields ex conf secs dir file async lay mst) = async"
  "isLayout (template_fields ex conf secs dir file async lay mst) = truthy lay"
  "master (template_fields ex conf secs dir file async lay mst) = mst"
  "templates (template_fields ex conf secs dir file async lay mst) = []"
  by (simp_all add: template_fields_def Let_def)

lemma new_Template_Inr:
  assumes "new_Template env ex conf secs dir file async = Inr t"
  shows "express t = ex" and "config t = conf" and "sections t = secs" and "dirname t = dir"
    and "filename t = file" and "isAsync t = async"
    and "isLayout t = truthy (get (own_props conf) ''layout'')"
    and "async \<Longrightarrow> templates t = []"
    and "\<not> async \<Longrightarrow> compile_sections (dot_template env) (varname t) secs [] = Inr (templates t)"
proof -
  from assms obtain lay mst where
    lay: "read_prop conf ''layout'' = Inr lay"
    and r: "(if async then Inr (template_fields ex conf secs dir file async lay mst)
             else init env (template_fields ex conf secs dir file async lay mst)) = Inr t"
    by (auto simp: new_Template_def split: sum.splits)
  have lay': "lay = get (own_props conf) ''layout''" using read_prop_Inr[OF lay] .
  show "express t = ex" "config t = conf" "sections t = secs" "dirname t = dir"
    "filename t = file" "isAsync t = async" "isLayout t = truthy (get (own_props conf) ''layout'')"
    using r lay' by (auto split: if_splits dest!: init_Inr)
  show "async \<Longrightarrow> templates t = []" using r by auto
  show "\<not> async \<Longrightarrow> compile_sections (dot_template env) (varname t) secs [] = Inr (templates t)"
    using r by (auto dest!: init_Inr)
qed

lemma builtTemplateFromString_Inr:
  assumes "builtTemplateFromString env str file opts = Inr t"
  shows "\<exists>secs. processTemplateString env str opts False = Inr (config t, secs, pick_settings opts) \<and>
           new_Template env (pick_settings opts) (config t) secs (path_dirname env file) file False = Inr t"
proof -
  from assms obtain conf secs ts where p: "processTemplateString env str opts False = Inr (conf, secs, ts)"
    and n: "new_Template env ts conf secs (path_dirname env file) file False = Inr t"
    by (auto simp: builtTemplateFromString_def split: sum.splits)
  from processTemplateString_Inr(1)[OF p] new_Template_Inr(2)[OF n] p n show ?thesis by auto
qed

lemma builtTemplateFromStringAsync_Inr:
  assumes "builtTemplateFromStringAsync env str file opts = Inr t"
  shows "\<exists>secs t0. processTemplateString env str opts True = Inr (config t, secs, pick_settings opts) \<and>
           new_Template env (pick_settings opts) (config t) secs (path_dirname env file) file True = Inr t0 \<and>
           initAsync env t0 = Inr t"
proof -
  from assms obtain conf secs ts t0 where p: "processTemplateString env str opts True = Inr (conf, secs, ts)"
    and n: "new_Template env ts conf secs (path_dirname env file) file True = Inr t0"
    and i: "initAsync env t0 = Inr t"
    by (auto simp: builtTemplateFromStringAsync_def split: sum.splits option.splits)
  from initAsync_Inr[OF i] new_Template_Inr(2)[OF n] have "config t = conf" by auto
  with processTemplateString_Inr(1)[OF p] p n i show ?thesis by auto
qed






lemmas site_defs = site_def site_yaml_def site_template_def site_readFile_def site_files_def
  site_dirname_def plain_options_def no_stores_def

lemmas build_defs = builtTemplateFromString_def builtTemplateFromStringAsync_def
  processTemplateString_def match_config_def starts_with_def read_prop_def new_Template_def
  init_def initAsync_def initAsync_throws_def pick_settings_def partial_rewriter_def join_path_def


subsection \<open>Rendering without a layout\<close>




subsection \<open>The arguments of a section\<close>

lemma uniq_from_id:
  "sorted_wrt (\<lambda>x y. \<not> same_value x y) (seen @ xs) \<Longrightarrow> uniq_from seen xs = xs"
proof (induction xs arbitrary: seen)
  case Nil
  then show ?case by simp
next
  case (Cons x xs)
  from Cons.prems have "\<not> list_ex (\<lambda>y. same_value y x) seen"
    by (auto simp: sorted_wrt_append list_ex_iff)
  moreover from Cons.prems have "sorted_wrt (\<lambda>x y. \<not> same_value x y) ((seen @ [x]) @ xs)"
    by simp
  ultimately show ?case using Cons.IH by simp
qed

text \<open>
  Candidates that were read from different places and hold different primitives are
  different values.
\<close>

lemma no_repeats:
  "distinct (map fst cs) \<Longrightarrow> distinct (filter (\<lambda>a. \<not> is_reference a) (map snd cs)) \<Longrightarrow>
   sorted_wrt (\<lambda>x y. \<not> same_value x y) cs"
proof (induction cs)
  case Nil
  then show ?case by simp
next
  case (Cons x cs)
  have "\<not> same_value x y" if y: "y \<in> set cs" for y
  proof (cases "is_reference (snd x)")
    case True
    from Cons.prems(1) y have "fst x \<noteq> fst y" by auto
    with True show ?thesis by (simp add: same_value_def)
  next
    case False
    with Cons.prems(2) have "snd x \<notin> set (filter (\<lambda>a. \<not> is_reference a) (map snd cs))" by simp
    with False y have "snd x \<noteq> snd y" by auto
    with False show ?thesis by (simp add: same_value_def)
  qed
  moreover from Cons.prems have "distinct (map fst cs)"
    "distinct (filter (\<lambda>a. \<not> is_reference a) (map snd cs))"
    by (auto split: if_splits)
  ultimately show ?case using Cons.IH by simp
qed

lemma read_prop_own:
  "k \<in> fst ` set (own_props v) \<Longrightarrow> read_prop v k = Inr (get (own_props v) k)"
  by (cases v) (simp_all add: read_prop_def)

lemma read_prop_defined:
  "v \<noteq> VUndef \<Longrightarrow> v \<noteq> VNull \<Longrightarrow> read_prop v k = Inr (get (own_props v) k)"
  by (cases v) (simp_all add: read_prop_def)

lemma shortcut_values_self:
  assumes "set ks \<subseteq> fst ` set (own_props sc)"
    and "ks = [] \<or> (locals \<noteq> VUndef \<and> locals \<noteq> VNull)"
  shows "shortcut_values sc locals ks =
     Inr (map (\<lambda>shortcut.
                 (Entry (to_str (get (own_props sc) shortcut)),
                  AVal (let entry = get (own_props locals) (to_str (get (own_props sc) shortcut))
                        in if truthy entry then entry else VNull))) ks)"
  using assms
proof (induction ks)
  case Nil
  then show ?case by simp
next
  case (Cons k ks)
  from Cons.prems have l: "locals \<noteq> VUndef" "locals \<noteq> VNull" by simp_all
  from Cons.prems(1) have k: "k \<in> fst ` set (own_props sc)" and ks: "set ks \<subseteq> fst ` set (own_props sc)"
    by simp_all
  from Cons.IH[OF ks] l read_prop_own[OF k] read_prop_defined[OF l] show ?case
    by (simp add: Let_def)
qed

lemma map_fst_view_data:
  "map (fst \<circ> (\<lambda>(i, v). (ViewData i, AVal v))) (enumerate n vs) = map ViewData [n..<n + length vs]"
proof -
  have "map (fst \<circ> (\<lambda>(i, v). (ViewData i, AVal v))) (enumerate n vs)
      = map ViewData (map fst (enumerate n vs))"
    by (simp only: map_map comp_def split_def fst_conv)
  then show ?thesis by (simp only: map_fst_enumerate)
qed

lemma map_snd_view_data:
  "map (snd \<circ> (\<lambda>(i, v). (ViewData i, AVal v))) (enumerate n vs) = map AVal vs"
  by (induction vs arbitrary: n) simp_all

lemma filter_primitive_args:
  "filter (\<lambda>a. \<not> is_reference a) (map AVal vs) = map AVal (filter is_primitive vs)"
  by (induction vs) simp_all

text \<open>
  When \<open>model._locals\<close> can be read and no value stands twice, the list that
  \<open>renderAsync\<close> builds is the list of the specification.
\<close>

lemma section_arguments_spec:
  assumes r: "locals_readable t mdl" and n: "no_value_twice t mdl"
  shows "section_arguments (shortcuts t) t lm mdl = Inr (spec_arguments t lm mdl)"
proof -
  define ks where "ks = map fst (own_props (shortcuts t))"
  define path where "path = (\<lambda>shortcut. to_str (get (own_props (shortcuts t)) shortcut))"
  define val where "val = (\<lambda>shortcut.
      let entry = get (own_props (get mdl ''_locals'')) (path shortcut)
      in if truthy entry then entry else VNull)"
  define svs where "svs = map (\<lambda>shortcut. (Entry (path shortcut), AVal (val shortcut))) ks"
  define first where "first = [(Layout, AVal (VObj lm)), (Helper, AHelper lm mdl),
      (Locals, AVal (locals_or_empty mdl)), (Model, AVal (VObj mdl))]"
  define vd where "vd = map (\<lambda>(i, v). (ViewData i, AVal v)) (enumerate 0 (viewData t))"
  have rd: "ks = [] \<or> (get mdl ''_locals'' \<noteq> VUndef \<and> get mdl ''_locals'' \<noteq> VNull)"
    using r by (auto simp: locals_readable_def ks_def)
  have "set ks \<subseteq> fst ` set (own_props (shortcuts t))" by (simp add: ks_def)
  from shortcut_values_self[OF this rd]
  have sv: "shortcut_values (shortcuts t) (get mdl ''_locals'') ks = Inr svs"
    by (simp add: svs_def path_def val_def)
  have spec_vals: "spec_shortcut_values (shortcuts t) (get mdl ''_locals'') = map val ks"
    by (simp add: spec_shortcut_values_def val_def path_def ks_def)
  have snd_svs: "map snd svs = map AVal (map val ks)" by (simp add: svs_def comp_def)
  have fst_svs: "map fst svs = map Entry (map path ks)" by (simp add: svs_def comp_def)
  from n have dp: "distinct (map path ks)"
    and dv: "distinct (filter is_primitive (locals_or_empty mdl # viewData t @ map val ks))"
    by (simp_all add: no_value_twice_def path_def ks_def spec_vals)
  have places: "map fst (first @ vd @ svs)
      = [Layout, Helper, Locals, Model] @ map ViewData [0..<length (viewData t)] @ map Entry (map path ks)"
    by (simp add: first_def vd_def map_fst_view_data fst_svs)
  have "distinct (map Entry (map path ks))" using dp by (simp add: distinct_map inj_on_def)
  moreover have "distinct (map ViewData [0..<length (viewData t)])"
    by (simp add: distinct_map inj_on_def)
  ultimately have d1: "distinct (map fst (first @ vd @ svs))"
    unfolding places by auto
  have vals: "map snd (first @ vd @ svs) = spec_arguments t lm mdl"
    by (simp add: first_def vd_def map_snd_view_data snd_svs spec_arguments_def spec_vals)
  have "filter (\<lambda>a. \<not> is_reference a) (map snd (first @ vd @ svs))
      = filter (\<lambda>a. \<not> is_reference a) (map AVal (locals_or_empty mdl # viewData t @ map val ks))"
    by (simp add: first_def vd_def map_snd_view_data snd_svs)
  also have "\<dots> = map AVal (filter is_primitive (locals_or_empty mdl # viewData t @ map val ks))"
    by (rule filter_primitive_args)
  finally have d2: "distinct (filter (\<lambda>a. \<not> is_reference a) (map snd (first @ vd @ svs)))"
    using dv by (simp add: distinct_map inj_on_def)
  from no_repeats[OF d1 d2] have "sorted_wrt (\<lambda>x y. \<not> same_value x y) ([] @ first @ vd @ svs)"
    by simp
  from uniq_from_id[OF this] have "lodash_union [first, vd, svs] = first @ vd @ svs"
    by (simp add: lodash_union_def)
  with sv vals show ?thesis
    by (simp add: section_arguments_def ks_def first_def vd_def locals_or_empty_def)
qed

lemma section_arguments_no_shortcuts:
  "own_props (shortcuts t) = [] \<Longrightarrow>
   section_arguments holder t lm mdl = section_arguments (shortcuts t) t lm mdl"
  by (simp add: section_arguments_def)

text \<open>
  \<open>render\<close> of a template with a shortcut fails before its first section runs, whatever
  the model is.
\<close>

lemma render_viewModel_throws:
  "own_props (shortcuts t) = (shortcut, path) # rest \<Longrightarrow>
   render_viewModel t lm mdl = Inl (cannot_read VUndef shortcut)"
  by (simp add: render_viewModel_def section_arguments_def read_prop_def)

lemma render_with_shortcut_fails:
  "map_option fst
     (renderString site 1 ''hello''
        (plain_options [(''settings'', VObj [(''view shortcut'', VObj [(''user'', VStr ''u'')])]),
                        (''_locals'', VObj [(''u'', VStr ''ann'')])]) no_stores)
     = Some (Inl (JsErr ''Error''
          (''Failed to render with doT () - TypeError: Cannot read properties of undefined (reading ''
           @ [CHR 0x27] @ ''user'' @ [CHR 0x27] @ '')''))) \<and>
   map_option fst
     (renderStringAsync site 1 ''hello''
        (plain_options [(''settings'', VObj [(''view shortcut'', VObj [(''user'', VStr ''u'')])]),
                        (''_locals'', VObj [(''u'', VStr ''ann'')])]) no_stores)
     = Some (Inr ''<!doctype html>hello'')"
  by code_simp

text \<open>
  \<open>_.union\<close> drops a value that it has seen: two shortcuts whose entries are both absent
  give one \<open>null\<close>, not two, and two shortcuts with one path give their entry once.
\<close>

lemma union_drops_equal_values:
  "map snd (lodash_union [[(Model, AVal (VStr ''a''))], [(Entry ''u'', AVal VNull), (Entry ''v'', AVal VNull)]])
     = [AVal (VStr ''a''), AVal VNull] \<and>
   map snd (lodash_union [[(Entry ''u'', AVal (VObj [])), (Entry ''u'', AVal (VObj []))]])
     = [AVal (VObj [])]"
  by (simp add: lodash_union_def same_value_def)

text \<open>
  C4, as stated, fails for a shortcut whose entry in \<open>model._locals\<close> is present and
  falsy: \<open>_locals[path] || null\<close> passes \<open>null\<close>, not the entry (here the entry is
  \<open>0\<close>, and the template is one that \<open>renderAsync\<close> renders).
\<close>

theorem C4_section_arguments_counterexample:
  "(case builtTemplateFromStringAsync site ''hello'' ''views/h.dot''
           (plain_options [(''settings'', VObj [(''view shortcut'', VObj [(''user'', VStr ''u'')])]),
                           (''_locals'', VObj [(''u'', VNum 0)])]) of
      Inl e \<Rightarrow> Inl e
    | Inr t \<Rightarrow>
        renderAsync_viewModel t []
          [(''settings'', VObj [(''view shortcut'', VObj [(''user'', VStr ''u'')])]),
           (''_locals'', VObj [(''u'', VNum 0)])])
   = Inr [AVal (VObj []),
          AHelper [] [(''settings'', VObj [(''view shortcut'', VObj [(''user'', VStr ''u'')])]),
                      (''_locals'', VObj [(''u'', VNum 0)])],
          AVal (VObj [(''u'', VNum 0)]),
          AVal (VObj [(''settings'', VObj [(''view shortcut'', VObj [(''user'', VStr ''u'')])]),
                      (''_locals'', VObj [(''u'', VNum 0)])]),
          AVal VNull] \<and>
   get [(''u'', VNum 0)] ''u'' = VNum 0"
  by code_simp

text \<open>
  C4, amended: for every section that \<open>renderAsync\<close> invokes, and for every section
  that \<open>render\<close> invokes of a template without shortcuts, when \<open>model._locals\<close> can be
  read and no value stands twice in the list, the argument list is the concatenation of
  the layout model, the partial helper, the locals (or an empty object), the model, the
  view-data values in order and one value for each shortcut, which is the entry named by
  the shortcut's path in \<open>model._locals\<close> when that entry is truthy and \<open>null\<close> when it
  is absent or falsy; \<open>render\<close> stores the string a section returns in the layout model
  under the section's name before the next section runs, \<open>renderAsync\<close> stores it when
  the promises settle.
\<close>

theorem C4_section_arguments:
  assumes "locals_readable t mdl" and "no_value_twice t mdl"
  shows "renderAsync_viewModel t lm mdl = Inr (spec_arguments t lm mdl) \<and>
     (own_props (shortcuts t) = [] \<longrightarrow> render_viewModel t lm mdl = Inr (spec_arguments t lm mdl)) \<and>
     start_sections call t mdl ((key, f) # rest) lm st =
       (case run_prog call (f (spec_arguments t lm mdl)) (createPartialHelper lm mdl) st of
          None \<Rightarrow> None
        | Some (r, st') \<Rightarrow>
            (case start_sections call t mdl rest lm st' of
               None \<Rightarrow> None
             | Some (Inl e, st'') \<Rightarrow> Some (Inl e, st'')
             | Some (Inr rs, st'') \<Rightarrow> Some (Inr ((key, r) # rs), st''))) \<and>
     (own_props (shortcuts t) = [] \<longrightarrow>
        render_sections call t mdl ((key, f) # rest) lm st =
          (case run_prog call (f (spec_arguments t lm mdl)) (createPartialHelper lm mdl) st of
             None \<Rightarrow> None
           | Some (Inl err, st') \<Rightarrow> Some (Inl (failed_to_render t err), st')
           | Some (Inr out, st') \<Rightarrow> render_sections call t mdl rest (put lm key (VStr out)) st')) \<and>
     settle_all ((key, Inr out) # results) lm = settle_all results (put lm key (VStr out)) \<and>
     get (put lm key (VStr out)) key = VStr out"
proof -
  have a: "renderAsync_viewModel t lm mdl = Inr (spec_arguments t lm mdl)"
    using section_arguments_spec[OF assms] by (simp add: renderAsync_viewModel_def)
  have s: "render_viewModel t lm mdl = Inr (spec_arguments t lm mdl)"
    if "own_props (shortcuts t) = []"
    using section_arguments_spec[OF assms, of lm]
      section_arguments_no_shortcuts[OF that, of VUndef lm mdl]
    by (simp add: render_viewModel_def)
  from a s show ?thesis by (simp add: invoke_section_def)
qed

theorem C4_section_arguments_witness:
  "locals_readable
     (template_fields
        (plain_options [(''settings'', VObj [(''view data'', VObj [(''site'', VStr ''S'')]),
                                              (''view shortcut'', VObj [(''user'', VStr ''u''), (''cart'', VStr ''c'')])])])
        (VObj []) [] ''views'' ''views/h.dot'' True VUndef None)
     [(''_locals'', VObj [(''u'', VStr ''ann'')])] \<and>
   no_value_twice
     (template_fields
        (plain_options [(''settings'', VObj [(''view data'', VObj [(''site'', VStr ''S'')]),
                                              (''view shortcut'', VObj [(''user'', VStr ''u''), (''cart'', VStr ''c'')])])])
        (VObj []) [] ''views'' ''views/h.dot'' True VUndef None)
     [(''_locals'', VObj [(''u'', VStr ''ann'')])] \<and>
   renderAsync_viewModel
     (template_fields
        (plain_options [(''settings'', VObj [(''view data'', VObj [(''site'', VStr ''S'')]),
                                              (''view shortcut'', VObj [(''user'', VStr ''u''), (''cart'', VStr ''c'')])])])
        (VObj []) [] ''views'' ''views/h.dot'' True VUndef None)
      [(''title'', VStr ''t'')] [(''_locals'', VObj [(''u'', VStr ''ann'')])]
     = Inr [AVal (VObj [(''title'', VStr ''t'')]),
            AHelper [(''title'', VStr ''t'')] [(''_locals'', VObj [(''u'', VStr ''ann'')])],
            AVal (VObj [(''u'', VStr ''ann'')]),
            AVal (VObj [(''_locals'', VObj [(''u'', VStr ''ann'')])]),
            AVal (VStr ''S''), AVal (VStr ''ann''), AVal VNull] \<and>
   own_props (shortcuts (template_fields
        (plain_options [(''settings'', VObj [(''view data'', VObj [(''site'', VStr ''S'')])])])
        (VObj []) [] ''views'' ''views/h.dot'' False VUndef None)) = [] \<and>
   render_viewModel
     (template_fields
        (plain_options [(''settings'', VObj [(''view data'', VObj [(''site'', VStr ''S'')])])])
        (VObj []) [] ''views'' ''views/h.dot'' False VUndef None)
      [(''title'', VStr ''t'')] [(''x'', VNum 1)]
     = Inr [AVal (VObj [(''title'', VStr ''t'')]),
            AHelper [(''title'', VStr ''t'')] [(''x'', VNum 1)],
            AVal (VObj []),
            AVal (VObj [(''x'', VNum 1)]),
            AVal (VStr ''S'')]"
proof -
  define t where "t = template_fields
        (plain_options [(''settings'', VObj [(''view data'', VObj [(''site'', VStr ''S'')]),
                                              (''view shortcut'', VObj [(''user'', VStr ''u''), (''cart'', VStr ''c'')])])])
        (VObj []) [] ''views'' ''views/h.dot'' True VUndef None"
  define mdl where "mdl = [(''_locals'', VObj [(''u'', VStr ''ann'')])]"
  define t0 where "t0 = template_fields
        (plain_options [(''settings'', VObj [(''view data'', VObj [(''site'', VStr ''S'')])])])
        (VObj []) [] ''views'' ''views/h.dot'' False VUndef None"
  define mdl0 where "mdl0 = [(''x'', VNum 1)]"
  have sc: "shortcuts t = VObj [(''user'', VStr ''u''), (''cart'', VStr ''c'')]"
    and vd: "viewData t = [VStr ''S'']"
    by (simp_all add: t_def template_fields_def plain_options_def Let_def)
  have sc0: "shortcuts t0 = VObj []" and vd0: "viewData t0 = [VStr ''S'']"
    by (simp_all add: t0_def template_fields_def plain_options_def Let_def)
  have r: "locals_readable t mdl" by (simp add: locals_readable_def mdl_def)
  have n: "no_value_twice t mdl"
    by (simp add: no_value_twice_def spec_shortcut_values_def locals_or_empty_def sc vd mdl_def)
  have r0: "locals_readable t0 mdl0" by (simp add: locals_readable_def sc0)
  have n0: "no_value_twice t0 mdl0"
    by (simp add: no_value_twice_def spec_shortcut_values_def locals_or_empty_def sc0 vd0 mdl0_def)
  have e0: "own_props (shortcuts t0) = []" by (simp add: sc0)
  from C4_section_arguments[OF r n, of "[(''title'', VStr ''t'')]"]
  have a: "renderAsync_viewModel t [(''title'', VStr ''t'')] mdl
     = Inr [AVal (VObj [(''title'', VStr ''t'')]),
            AHelper [(''title'', VStr ''t'')] mdl,
            AVal (VObj [(''u'', VStr ''ann'')]),
            AVal (VObj mdl),
            AVal (VStr ''S''), AVal (VStr ''ann''), AVal VNull]"
    by (simp add: spec_arguments_def spec_shortcut_values_def locals_or_empty_def sc vd)
       (simp add: mdl_def)
  from C4_section_arguments[OF r0 n0, of "[(''title'', VStr ''t'')]"] e0
  have s: "render_viewModel t0 [(''title'', VStr ''t'')] mdl0
     = Inr [AVal (VObj [(''title'', VStr ''t'')]),
            AHelper [(''title'', VStr ''t'')] mdl0,
            AVal (VObj []),
            AVal (VObj mdl0),
            AVal (VStr ''S'')]"
    by (simp add: spec_arguments_def spec_shortcut_values_def locals_or_empty_def sc0 vd0)
       (simp add: mdl0_def)
  from r n a e0 s show ?thesis
    unfolding t_def[symmetric] mdl_def[symmetric] t0_def[symmetric] mdl0_def[symmetric]
    by simp
qed


subsection \<open>The partial helper\<close>

text \<open>
  The helper assigns the merged model to the \<open>model\<close> it has captured, so a later call
  without extra data renders with the model an earlier call merged.
\<close>

lemma helper_keeps_merged_model:
  assumes "helper_call env t (createPartialHelper lay mdl) p1 (a # args) = Inr (h', tp1, ro1)"
    and "helper_call env t h' p2 [] = Inr (h'', tp2, ro2)"
  shows "model ro1 = foldl assign_into [] (mdl # a # args) \<and> model ro2 = model ro1"
  using assms
  by (auto simp: helper_call_def createPartialHelper_def Let_def split: sum.splits prod.splits)

text \<open>
  C3, on the code: with the model \<open>{x: 7}\<close>, a section that calls
  \<open>partial('item.dot', {x: 1})\<close> and then \<open>partial('item.dot')\<close> renders the second
  partial with \<open>x = 1\<close>, not with the caller's \<open>x = 7\<close> (which \<open>item.dot\<close> prints
  when it is given the caller's model), in both pipelines.
\<close>

theorem C3_partial_model_carried_over:
  "map_option fst (renderSync site 3 ''views/list.dot'' (plain_options [(''x'', VNum 7)]) no_stores)
     = Some (Inr ''<!doctype html>item 1;item 1;'') \<and>
   map_option fst (engine_renderAsync site 3 ''views/list.dot'' (plain_options [(''x'', VNum 7)]) no_stores)
     = Some (Inr ''<!doctype html>item 1;item 1;'') \<and>
   map_option fst (renderSync site 3 ''views/item.dot'' (plain_options [(''x'', VNum 7)]) no_stores)
     = Some (Inr ''<!doctype html>item 7;'')"
  by code_simp

subsection \<open>Failing sections\<close>

text \<open>
  In \<open>render\<close> a failing section ends the loop with the wrapped error. In
  \<open>renderAsync\<close> the \<open>try\<close> encloses only the call that returns the promise, so the
  rejection of a section's promise is what \<open>Promise.all\<close> rejects with, unwrapped.
\<close>

lemma render_sections_stops:
  "invoke_section call t f lm mdl st = Some (Inl err, st') \<Longrightarrow>
   render_sections call t mdl ((key, f) # rest) lm st = Some (Inl (failed_to_render t err), st')"
  by simp

lemma renderAsync_rejection_not_wrapped:
  assumes "templates t = [(key, f)]" and "renderAsync_viewModel t (seed_layoutModel (layout ro) (config t)) (model ro) = Inr args"
    and "run_prog (call_partial env (render env n) (renderAsync env n) t) (f args)
           (createPartialHelper (seed_layoutModel (layout ro) (config t)) (model ro)) st = Some (Inl err, st')"
  shows "renderAsync env (Suc n) t ro st = Some (Inl err, st')"
  using assms by (simp add: renderAsync_with_def)

text \<open>
  C9, on the code: a section that throws fails \<open>renderAsync\<close> with the section's own
  error, without the template's filename, where \<open>render\<close> gives the wrapped error.
\<close>

theorem C9_async_error_not_wrapped:
  "map_option fst (engine_renderAsync site 3 ''views/broken.dot'' (plain_options []) no_stores)
     = Some (Inl (JsErr ''TypeError''
                   (''Cannot read properties of undefined (reading '' @ [CHR 0x27] @ ''b'' @ [CHR 0x27] @ '')''))) \<and>
   map_option fst (renderSync site 3 ''views/broken.dot'' (plain_options []) no_stores)
     = Some (Inl (JsErr ''Error''
                   (''Failed to render with doT (views/broken.dot) - TypeError: Cannot read properties of undefined (reading ''
                    @ [CHR 0x27] @ ''b'' @ [CHR 0x27] @ '')'')))"
  by code_simp


subsection \<open>Layouts\<close>

lemma map_fst_put: "map fst (put obj k v) = (if has obj k then map fst obj else map fst obj @ [k])"
  by (induction obj) auto

lemma distinct_put: "distinct (map fst obj) \<Longrightarrow> distinct (map fst (put obj k v))"
  by (auto simp: map_fst_put has_def)

lemma distinct_merge_into:
  "distinct (map fst obj) \<Longrightarrow> distinct (map fst (merge_into obj src))"
  by (induction obj src rule: merge_into.induct) (auto simp: distinct_put)

lemma distinct_seed: "distinct (map fst (seed_layoutModel lay conf))"
  by (simp add: seed_layoutModel_def lodash_merge_def distinct_merge_into)

lemma get_seed_string:
  assumes "distinct (map fst lm)" and "distinct (map fst (own_props conf))"
    and "\<not> has (own_props conf) k" and "get lm k = VStr out"
  shows "get (seed_layoutModel lm conf) k = VStr out"
  using assms
  by (simp add: seed_layoutModel_def lodash_merge_def get_merge_into distinct_merge_into not_has_get)

lemma render_sections_Cons_Inr:
  assumes "render_sections call t mdl ((key, g) # secs) lm0 st0 = Some (Inr lm, st1)"
  obtains out st' where "invoke_section call t g lm0 mdl st0 = Some (Inr out, st')"
    and "render_sections call t mdl secs (put lm0 key (VStr out)) st' = Some (Inr lm, st1)"
  using assms by (auto split: option.splits sum.splits)

lemma render_sections_distinct:
  "render_sections call t mdl secs lm0 st0 = Some (Inr lm, st1) \<Longrightarrow> distinct (map fst lm0) \<Longrightarrow>
   distinct (map fst lm)"
proof (induction secs arbitrary: lm0 st0)
  case Nil
  then show ?case by simp
next
  case (Cons a secs)
  obtain key g where a: "a = (key, g)" by (cases a)
  from Cons.prems(1)[unfolded a] obtain out st' where
    "render_sections call t mdl secs (put lm0 key (VStr out)) st' = Some (Inr lm, st1)"
    by (rule render_sections_Cons_Inr)
  from Cons.IH[OF this distinct_put[OF Cons.prems(2)]] show ?case .
qed

lemma render_sections_other:
  "render_sections call t mdl secs lm0 st0 = Some (Inr lm, st1) \<Longrightarrow> \<not> has secs k \<Longrightarrow>
   get lm k = get lm0 k"
proof (induction secs arbitrary: lm0 st0)
  case Nil
  then show ?case by simp
next
  case (Cons a secs)
  obtain key g where a: "a = (key, g)" by (cases a)
  from Cons.prems(1)[unfolded a] obtain out st' where
    r: "render_sections call t mdl secs (put lm0 key (VStr out)) st' = Some (Inr lm, st1)"
    by (rule render_sections_Cons_Inr)
  from Cons.prems(2) a have nk: "\<not> has secs k" "k \<noteq> key" by auto
  from Cons.IH[OF r nk(1)] nk(2) show ?case by simp
qed

lemma render_sections_stored:
  "render_sections call t mdl secs lm0 st0 = Some (Inr lm, st1) \<Longrightarrow> distinct (map fst secs) \<Longrightarrow>
   (k, f) \<in> set secs \<Longrightarrow>
   \<exists>lmk stk out stk'. invoke_section call t f lmk mdl stk = Some (Inr out, stk') \<and> get lm k = VStr out"
proof (induction secs arbitrary: lm0 st0)
  case Nil
  then show ?case by simp
next
  case (Cons a secs)
  obtain key g where a: "a = (key, g)" by (cases a)
  from Cons.prems(1)[unfolded a] obtain out st' where
    i: "invoke_section call t g lm0 mdl st0 = Some (Inr out, st')"
    and r: "render_sections call t mdl secs (put lm0 key (VStr out)) st' = Some (Inr lm, st1)"
    by (rule render_sections_Cons_Inr)
  from Cons.prems(2) a have d: "distinct (map fst secs)" and nk: "\<not> has secs key"
    by (auto simp: has_def)
  from Cons.prems(3) a consider "(k, f) = (key, g)" | "(k, f) \<in> set secs" by auto
  then show ?case
  proof cases
    case 1
    from render_sections_other[OF r nk] have "get lm key = VStr out" by simp
    with 1 i show ?thesis by blast
  next
    case 2
    from Cons.IH[OF r d 2] show ?thesis .
  qed
qed

lemma start_sections_Cons_Inr:
  assumes "start_sections call t mdl ((key, g) # secs) lm0 st0 = Some (Inr rs, st1)"
  obtains args r st' rs' where "renderAsync_viewModel t lm0 mdl = Inr args"
    and "run_prog call (g args) (createPartialHelper lm0 mdl) st0 = Some (r, st')"
    and "start_sections call t mdl secs lm0 st' = Some (Inr rs', st1)"
    and "rs = (key, r) # rs'"
  using assms by (auto split: option.splits sum.splits)

lemma start_sections_results:
  "start_sections call t mdl secs lm0 st0 = Some (Inr rs, st1) \<Longrightarrow>
   map fst rs = map fst secs \<and>
   (\<forall>k f. (k, f) \<in> set secs \<longrightarrow>
      (\<exists>args stk r stk'. renderAsync_viewModel t lm0 mdl = Inr args \<and>
         run_prog call (f args) (createPartialHelper lm0 mdl) stk = Some (r, stk') \<and> (k, r) \<in> set rs))"
proof (induction secs arbitrary: st0 rs)
  case Nil
  then show ?case by simp
next
  case (Cons a secs)
  obtain key g where a: "a = (key, g)" by (cases a)
  from Cons.prems[unfolded a] obtain args r st' rs' where
    v: "renderAsync_viewModel t lm0 mdl = Inr args"
    and p: "run_prog call (g args) (createPartialHelper lm0 mdl) st0 = Some (r, st')"
    and s: "start_sections call t mdl secs lm0 st' = Some (Inr rs', st1)"
    and rs: "rs = (key, r) # rs'"
    by (rule start_sections_Cons_Inr)
  from Cons.IH[OF s] have k: "map fst rs' = map fst secs"
    and f: "\<And>k f. (k, f) \<in> set secs \<Longrightarrow>
      (\<exists>args stk r stk'. renderAsync_viewModel t lm0 mdl = Inr args \<and>
         run_prog call (f args) (createPartialHelper lm0 mdl) stk = Some (r, stk') \<and> (k, r) \<in> set rs')"
    by blast+
  have "\<exists>args stk r stk'. renderAsync_viewModel t lm0 mdl = Inr args \<and>
         run_prog call (f args) (createPartialHelper lm0 mdl) stk = Some (r, stk') \<and> (k, r) \<in> set rs"
    if "(k, f) \<in> set (a # secs)" for k f
  proof (cases "(k, f) = (key, g)")
    case True
    with v p rs show ?thesis by auto
  next
    case False
    with that a have "(k, f) \<in> set secs" by auto
    from f[OF this] rs show ?thesis by auto
  qed
  with k rs a show ?case by auto
qed

lemma settle_all_distinct:
  "settle_all rs lm0 = Inr lm \<Longrightarrow> distinct (map fst lm0) \<Longrightarrow> distinct (map fst lm)"
  by (induction rs lm0 rule: settle_all.induct) (auto simp: distinct_put)

lemma settle_all_other:
  "settle_all rs lm0 = Inr lm \<Longrightarrow> \<not> has rs k \<Longrightarrow> get lm k = get lm0 k"
  by (induction rs lm0 rule: settle_all.induct) auto

lemma settle_all_stored:
  "settle_all rs lm0 = Inr lm \<Longrightarrow> distinct (map fst rs) \<Longrightarrow> (k, r) \<in> set rs \<Longrightarrow>
   \<exists>out. r = Inr out \<and> get lm k = VStr out"
proof (induction rs lm0 rule: settle_all.induct)
  case (1 layoutModel)
  then show ?case by simp
next
  case (2 key e rest layoutModel)
  then show ?case by simp
next
  case (3 key m rest layoutModel)
  from 3(3) have d: "distinct (map fst rest)" and nk: "\<not> has rest key" by (auto simp: has_def)
  from 3(2) have s: "settle_all rest (put layoutModel key (VStr m)) = Inr lm" by simp
  from 3(4) consider "(k, r) = (key, Inr m)" | "(k, r) \<in> set rest" by auto
  then show ?case
  proof cases
    case 1
    from settle_all_other[OF s nk] have "get lm key = VStr m" by simp
    with 1 show ?thesis by auto
  next
    case 2
    from 3(1)[OF s d 2] show ?thesis .
  qed
qed

text \<open>
  C1, as stated, fails when the master's own front matter has a key with the section's
  name: the master seeds its layout model with its config over the layout it was given,
  so \<open>layout.section\<close> is the master's \<open>mine\<close>, not the child's \<open>test-child\<close> (which
  the same child gives under a master without that key).
\<close>

theorem C1_two_level_layout_counterexample:
  "map_option fst (renderSync site 3 ''views/child2.dot'' (plain_options []) no_stores)
     = Some (Inr ''<!doctype html>---\<newline>section: mine\<newline>---\<newline>test-master mine'') \<and>
   map_option fst (engine_renderAsync site 3 ''views/child2.dot'' (plain_options []) no_stores)
     = Some (Inr ''<!doctype html>---\<newline>section: mine\<newline>---\<newline>test-master mine'') \<and>
   map_option fst (renderSync site 3 ''views/child.dot'' (plain_options []) no_stores)
     = Some (Inr ''<!doctype html>test-master test-child'')"
  by code_simp

text \<open>
  C1, amended: for a child template with a layout and a master whose own config has no
  key \<open>X\<close>, when the child's sections have all been evaluated and the master is found,
  the child's render (sync and async) is the master's render, started with the layout
  model in which every section of the child is stored; under \<open>X\<close> that model, and the
  layout model the master seeds from it, hold the output of the child's section \<open>X\<close>.
\<close>

theorem C1_two_level_layout:
  assumes "isLayout c" and "master c = Some mp" and "distinct (map fst (templates c))"
    and "(X, f) \<in> set (templates c)"
    and "distinct (map fst (own_props (config m)))" and "\<not> has (own_props (config m)) X"
  shows
   "(render_sections (call_partial env (render env (Suc n)) (renderAsync env (Suc n)) c) c (model ro)
        (templates c) (seed_layoutModel (layout ro) (config c)) st = Some (Inr lm, st1) \<and>
     getTemplate env mp (express c) st1 = (Inr m, st2) \<longrightarrow>
       render env (Suc (Suc n)) c ro st
         = render env (Suc n) m \<lparr>layout = lm, model = model ro, isPartial = False\<rparr> st2 \<and>
       (\<forall>(k, g) \<in> set (templates c). \<exists>out. get lm k = VStr out) \<and>
       (\<exists>lmX stX out stX'.
          invoke_section (call_partial env (render env (Suc n)) (renderAsync env (Suc n)) c) c f lmX
            (model ro) stX = Some (Inr out, stX') \<and>
          get lm X = VStr out \<and> get (seed_layoutModel lm (config m)) X = VStr out)) \<and>
    (start_sections (call_partial env (render env (Suc n)) (renderAsync env (Suc n)) c) c (model ro)
        (templates c) (seed_layoutModel (layout ro) (config c)) st = Some (Inr rs, st1) \<and>
     settle_all rs (seed_layoutModel (layout ro) (config c)) = Inr lm \<and>
     getTemplateAsync env mp (express c) st1 = (Inr m, st2) \<longrightarrow>
       renderAsync env (Suc (Suc n)) c ro st
         = renderAsync env (Suc n) m \<lparr>layout = lm, model = model ro, isPartial = False\<rparr> st2 \<and>
       (\<forall>(k, g) \<in> set (templates c). \<exists>out. get lm k = VStr out) \<and>
       (\<exists>args stX out stX'.
          renderAsync_viewModel c (seed_layoutModel (layout ro) (config c)) (model ro) = Inr args \<and>
          run_prog (call_partial env (render env (Suc n)) (renderAsync env (Suc n)) c) (f args)
            (createPartialHelper (seed_layoutModel (layout ro) (config c)) (model ro)) stX
            = Some (Inr out, stX') \<and>
          get lm X = VStr out \<and> get (seed_layoutModel lm (config m)) X = VStr out))"
proof -
  define call where "call = call_partial env (render env (Suc n)) (renderAsync env (Suc n)) c"
  define seed where "seed = seed_layoutModel (layout ro) (config c)"
  have ds: "distinct (map fst seed)" by (simp add: seed_def distinct_seed)
  have sync: "render env (Suc (Suc n)) c ro st
         = render env (Suc n) m \<lparr>layout = lm, model = model ro, isPartial = False\<rparr> st2 \<and>
       (\<forall>(k, g) \<in> set (templates c). \<exists>out. get lm k = VStr out) \<and>
       (\<exists>lmX stX out stX'.
          invoke_section call c f lmX (model ro) stX = Some (Inr out, stX') \<and>
          get lm X = VStr out \<and> get (seed_layoutModel lm (config m)) X = VStr out)"
    if r: "render_sections call c (model ro) (templates c) seed st = Some (Inr lm, st1)"
      and g: "getTemplate env mp (express c) st1 = (Inr m, st2)"
  proof -
    have 1: "render env (Suc (Suc n)) c ro st
         = render env (Suc n) m \<lparr>layout = lm, model = model ro, isPartial = False\<rparr> st2"
      using r g assms(1,2) by (simp add: render_with_def call_def seed_def)
    have dl: "distinct (map fst lm)" using render_sections_distinct[OF r ds] .
    have 2: "\<exists>out. get lm k = VStr out" if "(k, g) \<in> set (templates c)" for k g
      using render_sections_stored[OF r assms(3) that] by blast
    from render_sections_stored[OF r assms(3,4)] obtain lmX stX out stX' where
      x: "invoke_section call c f lmX (model ro) stX = Some (Inr out, stX')" "get lm X = VStr out"
      by blast
    from get_seed_string[OF dl assms(5,6) x(2)] x 1 2 show ?thesis by blast
  qed
  have async: "renderAsync env (Suc (Suc n)) c ro st
         = renderAsync env (Suc n) m \<lparr>layout = lm, model = model ro, isPartial = False\<rparr> st2 \<and>
       (\<forall>(k, g) \<in> set (templates c). \<exists>out. get lm k = VStr out) \<and>
       (\<exists>args stX out stX'.
          renderAsync_viewModel c seed (model ro) = Inr args \<and>
          run_prog call (f args) (createPartialHelper seed (model ro)) stX = Some (Inr out, stX') \<and>
          get lm X = VStr out \<and> get (seed_layoutModel lm (config m)) X = VStr out)"
    if r: "start_sections call c (model ro) (templates c) seed st = Some (Inr rs, st1)"
      and s: "settle_all rs seed = Inr lm"
      and g: "getTemplateAsync env mp (express c) st1 = (Inr m, st2)"
  proof -
    have 1: "renderAsync env (Suc (Suc n)) c ro st
         = renderAsync env (Suc n) m \<lparr>layout = lm, model = model ro, isPartial = False\<rparr> st2"
      using r s g assms(1,2) by (simp add: renderAsync_with_def call_def seed_def)
    have dl: "distinct (map fst lm)" using settle_all_distinct[OF s ds] .
    from start_sections_results[OF r] have k: "map fst rs = map fst (templates c)"
      and res: "\<And>k f. (k, f) \<in> set (templates c) \<Longrightarrow>
        (\<exists>args stk r stk'. renderAsync_viewModel c seed (model ro) = Inr args \<and>
           run_prog call (f args) (createPartialHelper seed (model ro)) stk = Some (r, stk') \<and> (k, r) \<in> set rs)"
      by blast+
    have dr: "distinct (map fst rs)" using k assms(3) by simp
    have st: "\<exists>args stk out stk'. renderAsync_viewModel c seed (model ro) = Inr args \<and>
           run_prog call (g args) (createPartialHelper seed (model ro)) stk = Some (Inr out, stk') \<and>
           get lm k = VStr out" if "(k, g) \<in> set (templates c)" for k g
    proof -
      from res[OF that] obtain args stk r stk' where
        a: "renderAsync_viewModel c seed (model ro) = Inr args"
           "run_prog call (g args) (createPartialHelper seed (model ro)) stk = Some (r, stk')"
           "(k, r) \<in> set rs" by blast
      from settle_all_stored[OF s dr a(3)] a show ?thesis by blast
    qed
    have 2: "\<exists>out. get lm k = VStr out" if "(k, g) \<in> set (templates c)" for k g
      using st[OF that] by blast
    from st[OF assms(4)] obtain args stX out stX' where
      x: "renderAsync_viewModel c seed (model ro) = Inr args"
         "run_prog call (f args) (createPartialHelper seed (model ro)) stX = Some (Inr out, stX')"
         "get lm X = VStr out" by blast
    from get_seed_string[OF dl assms(5,6) x(3)] x 1 2 show ?thesis by blast
  qed
  from sync async show ?thesis unfolding call_def seed_def by blast
qed

theorem C1_two_level_layout_witness:
  "\<exists>c m lm.
     builtTemplateFromString site ''---\<newline>layout: master.dot\<newline>---\<newline>[[##section:test-child#]]''
       ''views/child.dot'' (plain_options []) = Inr c \<and>
     isLayout c \<and> master c = Some ''views/master.dot'' \<and>
     getTemplate site ''views/master.dot'' (express c) no_stores = (Inr m, no_stores) \<and>
     \<not> has (own_props (config m)) ''section'' \<and>
     get lm ''section'' = VStr ''test-child'' \<and>
     get (seed_layoutModel lm (config m)) ''section'' = VStr ''test-child'' \<and>
     render site (Suc (Suc 0)) c (top_options (plain_options [])) no_stores
       = render site (Suc 0) m \<lparr>layout = lm, model = [], isPartial = False\<rparr> no_stores \<and>
     map_option fst (render site (Suc (Suc 0)) c (top_options (plain_options [])) no_stores)
       = Some (Inr ''<!doctype html>test-master test-child'')"
proof -
  define c where "c = (template_fields (pick_settings (plain_options []))
      (VObj [(''layout'', VStr ''master.dot'')]) [(''section'', ''test-child'')] ''views''
      ''views/child.dot'' False (VStr ''master.dot'') (Some ''views/master.dot''))
      \<lparr>templates := [(''section'', \<lambda>args. Done ''test-child'')]\<rparr>"
  define m where "m = (template_fields (pick_settings (pick_settings (plain_options [])))
      (VObj []) [(''body'', ''test-master [[= layout.section ]]'')] ''views''
      ''views/master.dot'' False VUndef None)
      \<lparr>templates := [(''body'', \<lambda>args. Done (''test-master '' @ to_str (arg_prop args 0 ''section'')))]\<rparr>"
  define lm where "lm = [(''layout'', VStr ''master.dot''), (''section'', VStr ''test-child'')]"
  define ro where "ro = top_options (plain_options [])"
  have b: "builtTemplateFromString site ''---\<newline>layout: master.dot\<newline>---\<newline>[[##section:test-child#]]''
       ''views/child.dot'' (plain_options []) = Inr c"
    unfolding c_def
    by (simp add: site_defs build_defs match_define_def is_space_def is_word_def is_name_def
        set_section_def)
  have c1: "isLayout c" "master c = Some ''views/master.dot''"
    "templates c = [(''section'', \<lambda>args. Done ''test-child'')]"
    "express c = pick_settings (plain_options [])" "config c = VObj [(''layout'', VStr ''master.dot'')]"
    by (simp_all add: c_def)
  have g: "getTemplate site ''views/master.dot'' (express c) no_stores = (Inr m, no_stores)"
    unfolding m_def c1
    by (simp add: getTemplate_def cacheTemplate_def buildTemplate_def getTemplateContent_def
        site_defs build_defs)
  have m1: "config m = VObj []" "\<not> isLayout m"
    "templates m = [(''body'', \<lambda>args. Done (''test-master '' @ to_str (arg_prop args 0 ''section'')))]"
    by (simp_all add: m_def)
  have vmc: "render_viewModel c l [] = Inr [AVal (VObj l), AHelper l [], AVal (VObj []), AVal (VObj [])]" for l
    by (simp add: render_viewModel_def section_arguments_def same_value_def c_def template_fields_def
        pick_settings_def plain_options_def
        lodash_union_def Let_def)
  have vmm: "render_viewModel m l [] = Inr [AVal (VObj l), AHelper l [], AVal (VObj []), AVal (VObj [])]" for l
    by (simp add: render_viewModel_def section_arguments_def same_value_def m_def template_fields_def
        pick_settings_def plain_options_def
        lodash_union_def Let_def)
  have seed: "seed_layoutModel (layout ro) (config c) = [(''layout'', VStr ''master.dot'')]"
    by (simp add: ro_def top_options_def c1 seed_layoutModel_def lodash_merge_def)
  have mro: "model ro = []" by (simp add: ro_def top_options_def plain_options_def)
  have rs: "render_sections (call_partial site (render site (Suc 0)) (renderAsync site (Suc 0)) c) c
      (model ro) (templates c) (seed_layoutModel (layout ro) (config c)) no_stores
      = Some (Inr lm, no_stores)"
    by (simp add: seed mro c1(3) invoke_section_def vmc lm_def)
  have d: "distinct (map fst (templates c))" "(''section'', \<lambda>args. Done ''test-child'') \<in> set (templates c)"
    "distinct (map fst (own_props (config m)))" "\<not> has (own_props (config m)) ''section''"
    by (simp_all add: c1 m1)
  from C1_two_level_layout[OF c1(1,2) d, of site 0 ro no_stores lm no_stores no_stores] rs g
  have r: "render site (Suc (Suc 0)) c ro no_stores
         = render site (Suc 0) m \<lparr>layout = lm, model = model ro, isPartial = False\<rparr> no_stores"
    and x: "get (seed_layoutModel lm (config m)) ''section'' = VStr ''test-child''"
    by (auto simp: lm_def)
  have "render site (Suc 0) m \<lparr>layout = lm, model = [], isPartial = False\<rparr> no_stores
      = Some (Inr ''<!doctype html>test-master test-child'', no_stores)"
    by (simp add: render_with_def m1 invoke_section_def vmm no_layout_result_def
        seed_layoutModel_def lodash_merge_def lm_def arg_prop_def site_def)
  with r mro have out: "map_option fst (render site (Suc (Suc 0)) c ro no_stores)
       = Some (Inr ''<!doctype html>test-master test-child'')" by simp
  have l: "get lm ''section'' = VStr ''test-child''" by (simp add: lm_def)
  from r mro have r': "render site (Suc (Suc 0)) c (top_options (plain_options [])) no_stores
         = render site (Suc 0) m \<lparr>layout = lm, model = [], isPartial = False\<rparr> no_stores"
    by (simp add: ro_def)
  from out have out': "map_option fst (render site (Suc (Suc 0)) c (top_options (plain_options [])) no_stores)
       = Some (Inr ''<!doctype html>test-master test-child'')"
    by (simp add: ro_def)
  from b c1(1,2) g d(4) l x r' out' show ?thesis by blast
qed


subsection \<open>The cache stores\<close>

lemma cacheTemplate_pick [simp]: "cacheTemplate (pick_settings opts) = cacheTemplate opts"
  by (simp add: cacheTemplate_def pick_settings_def)

lemma built_sync:
  assumes "builtTemplateFromString env str file opts = Inr t"
  shows "\<not> isAsync t" and "express t = pick_settings opts"
proof -
  from builtTemplateFromString_Inr[OF assms] obtain secs where
    n: "new_Template env (pick_settings opts) (config t) secs (path_dirname env file) file False = Inr t"
    by blast
  from new_Template_Inr(6)[OF n] show "\<not> isAsync t" by simp
  from new_Template_Inr(1)[OF n] show "express t = pick_settings opts" .
qed

lemma built_async:
  assumes "builtTemplateFromStringAsync env str file opts = Inr t"
  shows "isAsync t" and "express t = pick_settings opts"
proof -
  from builtTemplateFromStringAsync_Inr[OF assms] obtain secs t0 where
    n: "new_Template env (pick_settings opts) (config t) secs (path_dirname env file) file True = Inr t0"
    and i: "initAsync env t0 = Inr t"
    by blast
  from initAsync_Inr[OF i] obtain fs where t: "t = t0\<lparr>templates := fs\<rparr>" by blast
  from new_Template_Inr(6)[OF n] t show "isAsync t" by simp
  from new_Template_Inr(1)[OF n] t show "express t = pick_settings opts" by simp
qed

lemma buildTemplate_Inr:
  "buildTemplate env file opts = Inr t \<Longrightarrow> \<not> isAsync t \<and> express t = pick_settings opts"
  by (auto simp: buildTemplate_def split: sum.splits dest: built_sync)

lemma buildTemplateAsync_Inr:
  "buildTemplateAsync env file opts = Inr t \<Longrightarrow> isAsync t \<and> express t = pick_settings opts"
  by (auto simp: buildTemplateAsync_def split: sum.splits dest: built_async)

lemma getTemplate_uncached:
  "\<not> cacheTemplate opts \<Longrightarrow> getTemplate env file opts st = (buildTemplate env file opts, st)"
  by (simp add: getTemplate_def split: sum.splits)

lemma getTemplateAsync_uncached:
  "\<not> cacheTemplate opts \<Longrightarrow> getTemplateAsync env file opts st = (buildTemplateAsync env file opts, st)"
  by (simp add: getTemplateAsync_def split: sum.splits)

lemma getTemplate_ok:
  assumes "getTemplate env file opts st = (r, st')" and "stores_ok st"
  shows "stores_ok st'" and "asyncCache st' = asyncCache st" and "r = Inr t \<Longrightarrow> \<not> isAsync t"
proof -
  show "asyncCache st' = asyncCache st"
    using assms(1)
    by (auto simp: getTemplate_def split: option.splits sum.splits if_splits)
  show "stores_ok st'"
    using assms
    by (auto simp: getTemplate_def stores_ok_def split: option.splits sum.splits if_splits
        dest: buildTemplate_Inr buildTemplate_Inr[OF sym])
  show "r = Inr t \<Longrightarrow> \<not> isAsync t"
    using assms
    by (auto simp: getTemplate_def stores_ok_def split: option.splits sum.splits if_splits
        dest: buildTemplate_Inr buildTemplate_Inr[OF sym])
qed

lemma getTemplateAsync_ok:
  assumes "getTemplateAsync env file opts st = (r, st')" and "stores_ok st"
  shows "stores_ok st'" and "cache st' = cache st" and "r = Inr t \<Longrightarrow> isAsync t"
proof -
  show "cache st' = cache st"
    using assms(1)
    by (auto simp: getTemplateAsync_def split: option.splits sum.splits if_splits)
  show "stores_ok st'"
    using assms
    by (auto simp: getTemplateAsync_def stores_ok_def split: option.splits sum.splits if_splits
        dest: buildTemplateAsync_Inr buildTemplateAsync_Inr[OF sym])
  show "r = Inr t \<Longrightarrow> isAsync t"
    using assms
    by (auto simp: getTemplateAsync_def stores_ok_def split: option.splits sum.splits if_splits
        dest: buildTemplateAsync_Inr buildTemplateAsync_Inr[OF sym])
qed

lemma step_relD:
  assumes "step_rel R call"
  shows "R s s" and "R a b \<Longrightarrow> R b c \<Longrightarrow> R a c"
    and "call h p x s = Some (r, h', s') \<Longrightarrow> R s s'"
  using assms unfolding step_rel_def by blast+

lemma run_prog_rel:
  assumes "step_rel R call"
  shows "run_prog call pr h st = Some (r, st') \<Longrightarrow> R st st'"
proof (induction pr arbitrary: h st)
  case (Done s)
  then show ?case using step_relD(1)[OF assms] by simp
next
  case (Fail e)
  then show ?case using step_relD(1)[OF assms] by simp
next
  case (CallPartial p a k)
  from CallPartial.prems obtain x h' s1 where c: "call h p a st = Some (x, h', s1)"
    and r: "run_prog call (k x) h' s1 = Some (r, st')"
    by (auto split: option.splits)
  from CallPartial.IH[OF _ r] have "R s1 st'" by simp
  with step_relD(3)[OF assms c] step_relD(2)[OF assms] show ?case by blast
qed

lemma invoke_section_rel:
  assumes "step_rel R call"
  shows "invoke_section call t f lm mdl st = Some (r, st') \<Longrightarrow> R st st'"
  using run_prog_rel[OF assms] step_relD(1)[OF assms]
  by (auto simp: invoke_section_def split: sum.splits)

lemma render_sections_rel:
  assumes "step_rel R call"
  shows "render_sections call t mdl secs lm st = Some (r, st') \<Longrightarrow> R st st'"
proof (induction secs arbitrary: lm st)
  case Nil
  then show ?case using step_relD(1)[OF assms] by simp
next
  case (Cons a secs)
  obtain key f where a: "a = (key, f)" by (cases a)
  from Cons.prems a obtain x s1 where i: "invoke_section call t f lm mdl st = Some (x, s1)"
    by (auto split: option.splits)
  note i' = invoke_section_rel[OF assms i]
  show ?case
  proof (cases x)
    case (Inl e)
    with Cons.prems a i i' show ?thesis by simp
  next
    case (Inr out)
    with Cons.prems a i have "render_sections call t mdl secs (put lm key (VStr out)) s1 = Some (r, st')"
      by simp
    from Cons.IH[OF this] i' step_relD(2)[OF assms] show ?thesis by blast
  qed
qed

lemma start_sections_rel:
  assumes "step_rel R call"
  shows "start_sections call t mdl secs lm st = Some (r, st') \<Longrightarrow> R st st'"
proof (induction secs arbitrary: st r)
  case Nil
  then show ?case using step_relD(1)[OF assms] by simp
next
  case (Cons a secs)
  obtain key f where a: "a = (key, f)" by (cases a)
  show ?case
  proof (cases "renderAsync_viewModel t lm mdl")
    case (Inl e)
    with Cons.prems a step_relD(1)[OF assms] show ?thesis by simp
  next
    case (Inr args)
    with Cons.prems a obtain x s1 y where
      p: "run_prog call (f args) (createPartialHelper lm mdl) st = Some (x, s1)"
      and s: "start_sections call t mdl secs lm s1 = Some (y, st')"
      by (auto split: option.splits sum.splits prod.splits)
    from run_prog_rel[OF assms p] Cons.IH[OF s] step_relD(2)[OF assms] show ?thesis by blast
  qed
qed

lemma sync_step_refl [simp]: "sync_step s s"
  by (simp add: sync_step_def)

lemma sync_step_trans: "sync_step a b \<Longrightarrow> sync_step b c \<Longrightarrow> sync_step a c"
  by (auto simp: sync_step_def)

lemma async_step_refl [simp]: "async_step s s"
  by (simp add: async_step_def)

lemma async_step_trans: "async_step a b \<Longrightarrow> async_step b c \<Longrightarrow> async_step a c"
  by (auto simp: async_step_def)

lemma getTemplate_sync_step:
  "getTemplate env file opts st = (r, st') \<Longrightarrow> sync_step st st'"
  using getTemplate_ok(1,2) by (auto simp: sync_step_def)

lemma getTemplateAsync_async_step:
  "getTemplateAsync env file opts st = (r, st') \<Longrightarrow> async_step st st'"
  using getTemplateAsync_ok(1,2) by (auto simp: async_step_def)

lemma get_then_render_sync:
  assumes rs: "sync_renderer rsync"
    and g: "getTemplate env file opts st = (Inr t', s1)"
    and r: "rsync t' ro' s1 = Some (x, st')"
  shows "sync_step st st'"
proof (cases "stores_ok st")
  case True
  from getTemplate_ok[OF g True] have "stores_ok s1" "\<not> isAsync t'" by auto
  with rs r have "sync_step s1 st'" unfolding sync_renderer_def by blast
  with getTemplate_sync_step[OF g] show ?thesis by (rule sync_step_trans)
next
  case False
  then show ?thesis by (simp add: sync_step_def)
qed

lemma get_then_render_async:
  assumes rs: "async_renderer rasync"
    and g: "getTemplateAsync env file opts st = (Inr t', s1)"
    and r: "rasync t' ro' s1 = Some (x, st')"
  shows "async_step st st'"
proof (cases "stores_ok st")
  case True
  from getTemplateAsync_ok[OF g True] have "stores_ok s1" "isAsync t'" by auto
  with rs r have "async_step s1 st'" unfolding async_renderer_def by blast
  with getTemplateAsync_async_step[OF g] show ?thesis by (rule async_step_trans)
next
  case False
  then show ?thesis by (simp add: async_step_def)
qed

lemma call_partial_sync:
  assumes rs: "sync_renderer rsync" and t: "\<not> isAsync t"
  shows "step_rel sync_step (call_partial env rsync rasync t)"
proof -
  have "sync_step s s'" if c: "call_partial env rsync rasync t h p a s = Some (r, h', s')"
    for h p a s r h' s'
  proof (cases "helper_call env t h p a")
    case (Inl e)
    with c show ?thesis by (simp add: call_partial_def)
  next
    case (Inr y)
    obtain h1 tp ro1 where y: "y = (h1, tp, ro1)" by (cases y)
    obtain g s1 where g: "getTemplate env tp (express t) s = (g, s1)"
      by (cases "getTemplate env tp (express t) s")
    show ?thesis
    proof (cases g)
      case (Inl e)
      with c \<open>helper_call env t h p a = Inr y\<close> y g t have "s' = s1" by (simp add: call_partial_def)
      with getTemplate_sync_step[OF g] show ?thesis by simp
    next
      case (Inr pt)
      with c \<open>helper_call env t h p a = Inr y\<close> y g t obtain x where "rsync pt ro1 s1 = Some (x, s')"
        by (auto simp: call_partial_def split: option.splits)
      from get_then_render_sync[OF rs g[unfolded Inr] this] show ?thesis .
    qed
  qed
  then show ?thesis
    unfolding step_rel_def by (intro conjI allI impI) (auto intro: sync_step_trans)
qed

lemma call_partial_async:
  assumes rs: "async_renderer rasync" and t: "isAsync t"
  shows "step_rel async_step (call_partial env rsync rasync t)"
proof -
  have "async_step s s'" if c: "call_partial env rsync rasync t h p a s = Some (r, h', s')"
    for h p a s r h' s'
  proof (cases "helper_call env t h p a")
    case (Inl e)
    with c show ?thesis by (simp add: call_partial_def)
  next
    case (Inr y)
    obtain h1 tp ro1 where y: "y = (h1, tp, ro1)" by (cases y)
    obtain g s1 where g: "getTemplateAsync env tp (express t) s = (g, s1)"
      by (cases "getTemplateAsync env tp (express t) s")
    show ?thesis
    proof (cases g)
      case (Inl e)
      with c \<open>helper_call env t h p a = Inr y\<close> y g t have "s' = s1" by (simp add: call_partial_def)
      with getTemplateAsync_async_step[OF g] show ?thesis by simp
    next
      case (Inr pt)
      with c \<open>helper_call env t h p a = Inr y\<close> y g t obtain x where "rasync pt ro1 s1 = Some (x, s')"
        by (auto simp: call_partial_def split: option.splits)
      from get_then_render_async[OF rs g[unfolded Inr] this] show ?thesis .
    qed
  qed
  then show ?thesis
    unfolding step_rel_def by (intro conjI allI impI) (auto intro: async_step_trans)
qed

lemma render_with_sync:
  assumes rs: "sync_renderer rsync" and t: "\<not> isAsync t"
    and r: "render_with env rsync rasync t ro st = Some (r, st')"
  shows "sync_step st st'"
proof -
  note sr = call_partial_sync[OF rs t, of env rasync]
  from r obtain x s1 where
    secs: "render_sections (call_partial env rsync rasync t) t (model ro) (templates t)
             (seed_layoutModel (layout ro) (config t)) st = Some (x, s1)"
    by (auto simp: render_with_def split: option.splits)
  note a = render_sections_rel[OF sr secs]
  show ?thesis
  proof (cases x)
    case (Inl e)
    with r secs a show ?thesis by (simp add: render_with_def)
  next
    case (Inr lm)
    show ?thesis
    proof (cases "isLayout t")
      case False
      with r secs Inr a show ?thesis by (simp add: render_with_def)
    next
      case True
      show ?thesis
      proof (cases "master t")
        case None
        with r secs Inr True a show ?thesis by (simp add: render_with_def)
      next
        case (Some m)
        obtain g s2 where g: "getTemplate env m (express t) s1 = (g, s2)"
          by (cases "getTemplate env m (express t) s1")
        show ?thesis
        proof (cases g)
          case (Inl e)
          with r secs \<open>x = Inr lm\<close> True Some g have "st' = s2" by (simp add: render_with_def)
          with getTemplate_sync_step[OF g] a show ?thesis by (auto intro: sync_step_trans)
        next
          case (Inr mt)
          with r secs \<open>x = Inr lm\<close> True Some g
          have "rsync mt \<lparr>layout = lm, model = model ro, isPartial = False\<rparr> s2 = Some (r, st')"
            by (simp add: render_with_def)
          from get_then_render_sync[OF rs g[unfolded Inr] this] a show ?thesis
            by (auto intro: sync_step_trans)
        qed
      qed
    qed
  qed
qed

lemma renderAsync_with_async:
  assumes rs: "async_renderer rasync" and t: "isAsync t"
    and r: "renderAsync_with env rsync rasync t ro st = Some (r, st')"
  shows "async_step st st'"
proof -
  note sr = call_partial_async[OF rs t, of env rsync]
  from r obtain x s1 where
    secs: "start_sections (call_partial env rsync rasync t) t (model ro) (templates t)
             (seed_layoutModel (layout ro) (config t)) st = Some (x, s1)"
    by (auto simp: renderAsync_with_def split: option.splits)
  note a = start_sections_rel[OF sr secs]
  show ?thesis
  proof (cases x)
    case (Inl e)
    with r secs a show ?thesis by (simp add: renderAsync_with_def)
  next
    case (Inr results)
    show ?thesis
    proof (cases "settle_all results (seed_layoutModel (layout ro) (config t))")
      case (Inl e)
      with r secs Inr a show ?thesis by (simp add: renderAsync_with_def)
    next
      case lm: (Inr lm)
      show ?thesis
      proof (cases "isLayout t")
        case False
        with r secs Inr lm a show ?thesis by (simp add: renderAsync_with_def)
      next
        case True
        show ?thesis
        proof (cases "master t")
          case None
          with r secs Inr lm True a show ?thesis by (simp add: renderAsync_with_def)
        next
          case (Some m)
          obtain g s2 where g: "getTemplateAsync env m (express t) s1 = (g, s2)"
            by (cases "getTemplateAsync env m (express t) s1")
          show ?thesis
          proof (cases g)
            case (Inl e)
            with r secs \<open>x = Inr results\<close> lm True Some g have "st' = s2"
              by (simp add: renderAsync_with_def)
            with getTemplateAsync_async_step[OF g] a show ?thesis by (auto intro: async_step_trans)
          next
            case mt: (Inr mt)
            with r secs \<open>x = Inr results\<close> lm True Some g
            have "rasync mt \<lparr>layout = lm, model = model ro, isPartial = False\<rparr> s2 = Some (r, st')"
              by (simp add: renderAsync_with_def)
            from get_then_render_async[OF rs g[unfolded mt] this] a show ?thesis
              by (auto intro: async_step_trans)
          qed
        qed
      qed
    qed
  qed
qed

lemma render_sync_renderer: "sync_renderer (render env n)"
proof (induction n)
  case 0
  then show ?case by (simp add: sync_renderer_def)
next
  case (Suc n)
  show ?case
    unfolding sync_renderer_def
  proof (intro allI impI)
    fix t ro s r s'
    assume t: "\<not> isAsync t" and r: "render env (Suc n) t ro s = Some (r, s')"
    from r have "render_with env (render env n) (renderAsync env n) t ro s = Some (r, s')"
      by simp
    from render_with_sync[OF Suc t this] show "sync_step s s'" .
  qed
qed

lemma renderAsync_async_renderer: "async_renderer (renderAsync env n)"
proof (induction n)
  case 0
  then show ?case by (simp add: async_renderer_def)
next
  case (Suc n)
  show ?case
    unfolding async_renderer_def
  proof (intro allI impI)
    fix t ro s r s'
    assume t: "isAsync t" and r: "renderAsync env (Suc n) t ro s = Some (r, s')"
    from r have "renderAsync_with env (render env n) (renderAsync env n) t ro s = Some (r, s')"
      by simp
    from renderAsync_with_async[OF Suc t this] show "async_step s s'" .
  qed
qed

lemma ignores_storesI: "(\<And>st. F st = map_option (\<lambda>v. (v, st)) x) \<Longrightarrow> ignores_stores F"
  unfolding ignores_stores_def by blast

lemma ignores_storesD:
  "ignores_stores F \<Longrightarrow> \<exists>x. \<forall>st. F st = map_option (\<lambda>v. (v, st)) x"
  unfolding ignores_stores_def .

lemma ignores_stores_result:
  assumes "ignores_stores F" and "F st = Some (r, st')"
  shows "st' = st \<and> F st2 = Some (r, st2)"
proof -
  from ignores_storesD[OF assms(1)] obtain x where x: "\<And>st. F st = map_option (\<lambda>v. (v, st)) x"
    by blast
  from assms(2) x[of st] have "x = Some r" "st' = st" by (cases x; simp)+
  with x[of st2] show ?thesis by simp
qed

lemma run_prog_ignores:
  assumes "call_ignores_stores call"
  shows "ignores_stores (run_prog call pr h)"
proof (induction pr arbitrary: h)
  case (Done s)
  show ?case by (rule ignores_storesI[where x = "Some (Inr s)"]) simp
next
  case (Fail e)
  show ?case by (rule ignores_storesI[where x = "Some (Inl e)"]) simp
next
  case (CallPartial p a k)
  from assms obtain y where y: "\<And>st. call h p a st = map_option (\<lambda>(r, h'). (r, h', st)) y"
    unfolding call_ignores_stores_def by metis
  show ?case
  proof (cases y)
    case None
    show ?thesis by (rule ignores_storesI[where x = None]) (simp add: y None)
  next
    case (Some v)
    obtain r h' where v: "v = (r, h')" by (cases v)
    have "ignores_stores (run_prog call (k r) h')" by (rule CallPartial.IH) simp
    from ignores_storesD[OF this] obtain x where
      x: "\<And>st. run_prog call (k r) h' st = map_option (\<lambda>v. (v, st)) x"
      by blast
    show ?thesis by (rule ignores_storesI[where x = x]) (simp add: y Some v x)
  qed
qed

lemma invoke_section_ignores:
  assumes "call_ignores_stores call"
  shows "ignores_stores (invoke_section call t f lm mdl)"
proof (cases "render_viewModel t lm mdl")
  case (Inl e)
  show ?thesis by (rule ignores_storesI[where x = "Some (Inl e)"]) (simp add: invoke_section_def Inl)
next
  case (Inr args)
  from ignores_storesD[OF run_prog_ignores[OF assms]] obtain x where
    "\<And>st. run_prog call (f args) (createPartialHelper lm mdl) st = map_option (\<lambda>v. (v, st)) x"
    by blast
  then show ?thesis by (intro ignores_storesI[where x = x]) (simp add: invoke_section_def Inr)
qed

lemma render_sections_ignores:
  assumes "call_ignores_stores call"
  shows "ignores_stores (render_sections call t mdl secs lm)"
proof (induction secs arbitrary: lm)
  case Nil
  show ?case by (rule ignores_storesI[where x = "Some (Inr lm)"]) simp
next
  case (Cons a secs)
  obtain key f where a: "a = (key, f)" by (cases a)
  from ignores_storesD[OF invoke_section_ignores[OF assms]] obtain x where
    x: "\<And>st. invoke_section call t f lm mdl st = map_option (\<lambda>v. (v, st)) x"
    by blast
  show ?case
  proof (cases x)
    case None
    show ?thesis by (rule ignores_storesI[where x = None]) (simp add: a x None)
  next
    case (Some r)
    show ?thesis
    proof (cases r)
      case (Inl e)
      show ?thesis
        by (rule ignores_storesI[where x = "Some (Inl (failed_to_render t e))"]) (simp add: a x Some Inl)
    next
      case (Inr out)
      from ignores_storesD[OF Cons.IH[of "put lm key (VStr out)"]] obtain y where
        "\<And>st. render_sections call t mdl secs (put lm key (VStr out)) st = map_option (\<lambda>v. (v, st)) y"
        by blast
      then show ?thesis by (intro ignores_storesI[where x = y]) (simp add: a x Some Inr)
    qed
  qed
qed

lemma start_sections_ignores:
  assumes "call_ignores_stores call"
  shows "ignores_stores (start_sections call t mdl secs lm)"
proof (induction secs)
  case Nil
  show ?case by (rule ignores_storesI[where x = "Some (Inr [])"]) simp
next
  case (Cons a secs)
  obtain key f where a: "a = (key, f)" by (cases a)
  show ?case
  proof (cases "renderAsync_viewModel t lm mdl")
    case (Inl e)
    show ?thesis
      by (rule ignores_storesI[where x = "Some (Inl (failed_to_render t e))"]) (simp add: a Inl)
  next
    case (Inr args)
    from ignores_storesD[OF run_prog_ignores[OF assms]] obtain x where
      x: "\<And>st. run_prog call (f args) (createPartialHelper lm mdl) st = map_option (\<lambda>v. (v, st)) x"
      by blast
    from ignores_storesD[OF Cons.IH] obtain y where
      y: "\<And>st. start_sections call t mdl secs lm st = map_option (\<lambda>v. (v, st)) y"
      by blast
    show ?thesis
    proof (cases x)
      case None
      show ?thesis by (rule ignores_storesI[where x = None]) (simp add: a Inr x None)
    next
      case (Some r)
      show ?thesis
      proof (cases y)
        case None
        show ?thesis by (rule ignores_storesI[where x = None]) (simp add: a Inr x Some y None)
      next
        case ys: (Some z)
        show ?thesis
        proof (cases z)
          case (Inl e)
          show ?thesis by (rule ignores_storesI[where x = "Some (Inl e)"]) (simp add: a Inr x Some y ys Inl)
        next
          case rs: (Inr rs)
          show ?thesis
            by (rule ignores_storesI[where x = "Some (Inr ((key, r) # rs))"])
               (simp add: a Inr x Some y ys rs)
        qed
      qed
    qed
  qed
qed

lemma uncached_rendererD:
  "uncached_renderer r \<Longrightarrow> \<not> cacheTemplate (express t) \<Longrightarrow>
   \<exists>x. \<forall>st. r t ro st = map_option (\<lambda>v. (v, st)) x"
  unfolding uncached_renderer_def by (blast dest: ignores_storesD)

lemma get_then_render_uncached:
  assumes r: "uncached_renderer rsync" and c: "\<not> cacheTemplate opts"
  shows "\<exists>x. \<forall>st. (case getTemplate env file opts st of
                    (Inl e, st') \<Rightarrow> Some (Inl e, st')
                  | (Inr t, st') \<Rightarrow> rsync t ro st') = map_option (\<lambda>v. (v, st)) x"
proof (cases "buildTemplate env file opts")
  case (Inl e)
  then show ?thesis
    by (intro exI[where x = "Some (Inl e)"]) (simp add: getTemplate_uncached[OF c])
next
  case (Inr t)
  from buildTemplate_Inr[OF Inr] c have "\<not> cacheTemplate (express t)" by simp
  from uncached_rendererD[OF r this] obtain x where "\<And>st. rsync t ro st = map_option (\<lambda>v. (v, st)) x"
    by blast
  then show ?thesis
    by (intro exI[where x = x]) (simp add: getTemplate_uncached[OF c] Inr)
qed

lemma get_then_renderAsync_uncached:
  assumes r: "uncached_renderer rasync" and c: "\<not> cacheTemplate opts"
  shows "\<exists>x. \<forall>st. (case getTemplateAsync env file opts st of
                    (Inl e, st') \<Rightarrow> Some (Inl e, st')
                  | (Inr t, st') \<Rightarrow> rasync t ro st') = map_option (\<lambda>v. (v, st)) x"
proof (cases "buildTemplateAsync env file opts")
  case (Inl e)
  then show ?thesis
    by (intro exI[where x = "Some (Inl e)"]) (simp add: getTemplateAsync_uncached[OF c])
next
  case (Inr t)
  from buildTemplateAsync_Inr[OF Inr] c have "\<not> cacheTemplate (express t)" by simp
  from uncached_rendererD[OF r this] obtain x where "\<And>st. rasync t ro st = map_option (\<lambda>v. (v, st)) x"
    by blast
  then show ?thesis
    by (intro exI[where x = x]) (simp add: getTemplateAsync_uncached[OF c] Inr)
qed

lemma call_partial_ignores:
  assumes rs: "uncached_renderer rsync" and ra: "uncached_renderer rasync"
    and c: "\<not> cacheTemplate (express t)"
  shows "call_ignores_stores (call_partial env rsync rasync t)"
  unfolding call_ignores_stores_def
proof (intro allI)
  fix h p a
  show "\<exists>y. \<forall>st. call_partial env rsync rasync t h p a st = map_option (\<lambda>(r, h'). (r, h', st)) y"
  proof (cases "helper_call env t h p a")
    case (Inl e)
    then show ?thesis
      by (intro exI[where x = "Some (Inl e, h)"]) (simp add: call_partial_def)
  next
    case (Inr v)
    obtain h1 tp ro1 where v: "v = (h1, tp, ro1)" by (cases v)
    show ?thesis
    proof (cases "isAsync t")
      case True
      from get_then_renderAsync_uncached[OF ra c, where env = env and ro = ro1] obtain x where
        x: "\<And>st. (case getTemplateAsync env tp (express t) st of
                    (Inl e, st') \<Rightarrow> Some (Inl e, st')
                  | (Inr t, st') \<Rightarrow> rasync t ro1 st') = map_option (\<lambda>v. (v, st)) x" by blast
      have "call_partial env rsync rasync t h p a st
            = map_option (\<lambda>(r, h'). (r, h', st)) (map_option (\<lambda>r. (r, h1)) x)" for st
        using x[of st]
        by (cases x)
          (auto simp: call_partial_def Inr v True split: prod.splits sum.splits option.splits)
      then show ?thesis by blast
    next
      case False
      from get_then_render_uncached[OF rs c, where env = env and ro = ro1] obtain x where
        x: "\<And>st. (case getTemplate env tp (express t) st of
                    (Inl e, st') \<Rightarrow> Some (Inl e, st')
                  | (Inr t, st') \<Rightarrow> rsync t ro1 st') = map_option (\<lambda>v. (v, st)) x" by blast
      have "call_partial env rsync rasync t h p a st
            = map_option (\<lambda>(r, h'). (r, h', st)) (map_option (\<lambda>r. (r, h1)) x)" for st
        using x[of st]
        by (cases x)
          (auto simp: call_partial_def Inr v False split: prod.splits sum.splits option.splits)
      then show ?thesis by blast
    qed
  qed
qed

lemma render_with_ignores:
  assumes rs: "uncached_renderer rsync" and ra: "uncached_renderer rasync"
    and c: "\<not> cacheTemplate (express t)"
  shows "ignores_stores (render_with env rsync rasync t ro)"
proof -
  from ignores_storesD[OF render_sections_ignores[OF call_partial_ignores[OF rs ra c]]]
  obtain x where
    x: "\<And>st. render_sections (call_partial env rsync rasync t) t (model ro) (templates t)
             (seed_layoutModel (layout ro) (config t)) st = map_option (\<lambda>v. (v, st)) x"
    by blast
  show ?thesis
  proof (cases x)
    case None
    show ?thesis by (rule ignores_storesI[where x = None]) (simp add: render_with_def x None)
  next
    case (Some v)
    show ?thesis
    proof (cases v)
      case (Inl e)
      show ?thesis
        by (rule ignores_storesI[where x = "Some (Inl e)"]) (simp add: render_with_def x Some Inl)
    next
      case (Inr lm)
      show ?thesis
      proof (cases "isLayout t")
        case False
        show ?thesis
          by (rule ignores_storesI[where x = "Some (Inr (no_layout_result env ro lm))"])
             (simp add: render_with_def x Some Inr False)
      next
        case True
        show ?thesis
        proof (cases "master t")
          case None
          show ?thesis
            by (rule ignores_storesI[where x = "Some (Inl path_type_error)"])
               (simp add: render_with_def x Some Inr True None)
        next
          case m: (Some m)
          from get_then_render_uncached[OF rs c,
              where env = env and ro = "\<lparr>layout = lm, model = model ro, isPartial = False\<rparr>"]
          obtain y where
            y: "\<And>st. (case getTemplate env m (express t) st of
                    (Inl e, st') \<Rightarrow> Some (Inl e, st')
                  | (Inr t, st') \<Rightarrow> rsync t \<lparr>layout = lm, model = model ro, isPartial = False\<rparr> st')
                 = map_option (\<lambda>v. (v, st)) y" by blast
          show ?thesis
            by (rule ignores_storesI[where x = y])
               (simp add: render_with_def x Some Inr True m y[symmetric] split: prod.splits sum.splits)
        qed
      qed
    qed
  qed
qed

lemma renderAsync_with_ignores:
  assumes rs: "uncached_renderer rsync" and ra: "uncached_renderer rasync"
    and c: "\<not> cacheTemplate (express t)"
  shows "ignores_stores (renderAsync_with env rsync rasync t ro)"
proof -
  from ignores_storesD[OF start_sections_ignores[OF call_partial_ignores[OF rs ra c]]]
  obtain x where
    x: "\<And>st. start_sections (call_partial env rsync rasync t) t (model ro) (templates t)
             (seed_layoutModel (layout ro) (config t)) st = map_option (\<lambda>v. (v, st)) x"
    by blast
  show ?thesis
  proof (cases x)
    case None
    show ?thesis by (rule ignores_storesI[where x = None]) (simp add: renderAsync_with_def x None)
  next
    case (Some v)
    show ?thesis
    proof (cases v)
      case (Inl e)
      show ?thesis
        by (rule ignores_storesI[where x = "Some (Inl e)"]) (simp add: renderAsync_with_def x Some Inl)
    next
      case (Inr results)
      show ?thesis
      proof (cases "settle_all results (seed_layoutModel (layout ro) (config t))")
        case e: (Inl e)
        show ?thesis
          by (rule ignores_storesI[where x = "Some (Inl e)"])
             (simp add: renderAsync_with_def x Some Inr e)
      next
        case lm: (Inr lm)
        show ?thesis
        proof (cases "isLayout t")
          case False
          show ?thesis
            by (rule ignores_storesI[where x = "Some (Inr (no_layout_result env ro lm))"])
               (simp add: renderAsync_with_def x Some Inr lm False)
        next
          case True
          show ?thesis
          proof (cases "master t")
            case None
            show ?thesis
              by (rule ignores_storesI[where x = "Some (Inl path_type_error)"])
                 (simp add: renderAsync_with_def x Some Inr lm True None)
          next
            case m: (Some m)
            from get_then_renderAsync_uncached[OF ra c,
                where env = env and ro = "\<lparr>layout = lm, model = model ro, isPartial = False\<rparr>"]
            obtain y where
              y: "\<And>st. (case getTemplateAsync env m (express t) st of
                      (Inl e, st') \<Rightarrow> Some (Inl e, st')
                    | (Inr t, st') \<Rightarrow> rasync t \<lparr>layout = lm, model = model ro, isPartial = False\<rparr> st')
                   = map_option (\<lambda>v. (v, st)) y" by blast
            show ?thesis
              by (rule ignores_storesI[where x = y])
                 (simp add: renderAsync_with_def x Some Inr lm True m y[symmetric]
                    split: prod.splits sum.splits)
          qed
        qed
      qed
    qed
  qed
qed

lemma render_uncached: "uncached_renderer (render env n) \<and> uncached_renderer (renderAsync env n)"
proof (induction n)
  case 0
  have "ignores_stores (render env 0 t ro)" "ignores_stores (renderAsync env 0 t ro)" for t ro
    by (rule ignores_storesI[where x = None], simp)+
  then show ?case unfolding uncached_renderer_def by blast
next
  case (Suc n)
  then have rs: "uncached_renderer (render env n)" and ra: "uncached_renderer (renderAsync env n)"
    by simp_all
  have "ignores_stores (render env (Suc n) t ro)" if "\<not> cacheTemplate (express t)" for t ro
  proof -
    have "render env (Suc n) t ro = render_with env (render env n) (renderAsync env n) t ro"
      by (rule ext) simp
    with render_with_ignores[OF rs ra that] show ?thesis by simp
  qed
  moreover have "ignores_stores (renderAsync env (Suc n) t ro)" if "\<not> cacheTemplate (express t)" for t ro
  proof -
    have "renderAsync env (Suc n) t ro = renderAsync_with env (render env n) (renderAsync env n) t ro"
      by (rule ext) simp
    with renderAsync_with_ignores[OF rs ra that] show ?thesis by simp
  qed
  ultimately show ?case unfolding uncached_renderer_def by blast
qed

lemma sync_rendererD:
  "sync_renderer r \<Longrightarrow> \<not> isAsync t \<Longrightarrow> r t ro s = Some (x, s') \<Longrightarrow> sync_step s s'"
  unfolding sync_renderer_def by blast

lemma async_rendererD:
  "async_renderer r \<Longrightarrow> isAsync t \<Longrightarrow> r t ro s = Some (x, s') \<Longrightarrow> async_step s s'"
  unfolding async_renderer_def by blast

lemma perform_step:
  assumes "perform env n x st = Some (r, st')"
  shows "if op_async x then async_step st st' else sync_step st st'"
proof (cases x)
  case (RenderSync path opts)
  obtain g s1 where g: "getTemplate env path opts st = (g, s1)" by (cases "getTemplate env path opts st")
  show ?thesis
  proof (cases g)
    case (Inl e)
    with assms RenderSync g getTemplate_sync_step[OF g] show ?thesis by (simp add: renderSync_def)
  next
    case (Inr t)
    with assms RenderSync g have "render env n t (top_options opts) s1 = Some (r, st')"
      by (simp add: renderSync_def)
    from get_then_render_sync[OF render_sync_renderer g[unfolded Inr] this] RenderSync
    show ?thesis by simp
  qed
next
  case (RenderAsync path opts)
  obtain g s1 where g: "getTemplateAsync env path opts st = (g, s1)"
    by (cases "getTemplateAsync env path opts st")
  show ?thesis
  proof (cases g)
    case (Inl e)
    with assms RenderAsync g getTemplateAsync_async_step[OF g] show ?thesis
      by (simp add: engine_renderAsync_def)
  next
    case (Inr t)
    with assms RenderAsync g have "renderAsync env n t (top_options opts) s1 = Some (r, st')"
      by (simp add: engine_renderAsync_def)
    from get_then_render_async[OF renderAsync_async_renderer g[unfolded Inr] this] RenderAsync
    show ?thesis by simp
  qed
next
  case (RenderString str opts)
  show ?thesis
  proof (cases "builtTemplateFromString env str [] opts")
    case (Inl e)
    with assms RenderString show ?thesis by (simp add: renderString_def)
  next
    case (Inr t)
    with assms RenderString have "render env n t (top_options opts) st = Some (r, st')"
      by (simp add: renderString_def)
    from sync_rendererD[OF render_sync_renderer built_sync(1)[OF Inr] this] RenderString
    show ?thesis by simp
  qed
next
  case (RenderStringAsync str opts)
  show ?thesis
  proof (cases "builtTemplateFromStringAsync env str [] opts")
    case (Inl e)
    with assms RenderStringAsync show ?thesis by (simp add: renderStringAsync_def)
  next
    case (Inr t)
    with assms RenderStringAsync have "renderAsync env n t (top_options opts) st = Some (r, st')"
      by (simp add: renderStringAsync_def)
    from async_rendererD[OF renderAsync_async_renderer built_async(1)[OF Inr] this] RenderStringAsync
    show ?thesis by simp
  qed
qed

lemma perform_ok:
  "perform env n x st = Some (r, st') \<Longrightarrow> stores_ok st \<Longrightarrow>
   stores_ok st' \<and> (if op_async x then cache st' = cache st else asyncCache st' = asyncCache st)"
  using perform_step[of env n x st r st']
  by (auto simp: sync_step_def async_step_def split: if_splits)

lemma perform_all_ok:
  "perform_all env n xs st = Some st' \<Longrightarrow> stores_ok st \<Longrightarrow> stores_ok st'"
proof (induction xs arbitrary: st)
  case Nil
  then show ?case by simp
next
  case (Cons x xs)
  from Cons.prems(1) obtain r s1 where p: "perform env n x st = Some (r, s1)"
    and a: "perform_all env n xs s1 = Some st'"
    by (auto split: option.splits)
  from perform_ok[OF p Cons.prems(2)] Cons.IH[OF a] show ?case by simp
qed

lemma stores_ok_empty: "stores_ok no_stores"
  by (simp add: stores_ok_def no_stores_def)

lemma perform_uncached:
  assumes "\<not> cacheTemplate (op_options x)"
  shows "ignores_stores (perform env n x)"
proof (cases x)
  case (RenderSync path opts)
  with assms have c: "\<not> cacheTemplate opts" by simp
  from get_then_render_uncached[OF conjunct1[OF render_uncached] c,
      where env = env and ro = "top_options opts"]
  obtain y where "\<And>st. (case getTemplate env path opts st of
                    (Inl e, st') \<Rightarrow> Some (Inl e, st')
                  | (Inr t, st') \<Rightarrow> render env n t (top_options opts) st') = map_option (\<lambda>v. (v, st)) y"
    by blast
  then show ?thesis
    by (intro ignores_storesI[where x = y]) (simp add: RenderSync renderSync_def)
next
  case (RenderAsync path opts)
  with assms have c: "\<not> cacheTemplate opts" by simp
  from get_then_renderAsync_uncached[OF conjunct2[OF render_uncached] c,
      where env = env and ro = "top_options opts"]
  obtain y where "\<And>st. (case getTemplateAsync env path opts st of
                    (Inl e, st') \<Rightarrow> Some (Inl e, st')
                  | (Inr t, st') \<Rightarrow> renderAsync env n t (top_options opts) st') = map_option (\<lambda>v. (v, st)) y"
    by blast
  then show ?thesis
    by (intro ignores_storesI[where x = y]) (simp add: RenderAsync engine_renderAsync_def)
next
  case (RenderString str opts)
  with assms have c: "\<not> cacheTemplate opts" by simp
  show ?thesis
  proof (cases "builtTemplateFromString env str [] opts")
    case (Inl e)
    show ?thesis
      by (rule ignores_storesI[where x = "Some (Inl e)"]) (simp add: RenderString renderString_def Inl)
  next
    case (Inr t)
    from built_sync(2)[OF Inr] c have "\<not> cacheTemplate (express t)" by simp
    from uncached_rendererD[OF conjunct1[OF render_uncached] this] obtain y where
      "\<And>st. render env n t (top_options opts) st = map_option (\<lambda>v. (v, st)) y" by blast
    then show ?thesis
      by (intro ignores_storesI[where x = y]) (simp add: RenderString renderString_def Inr)
  qed
next
  case (RenderStringAsync str opts)
  with assms have c: "\<not> cacheTemplate opts" by simp
  show ?thesis
  proof (cases "builtTemplateFromStringAsync env str [] opts")
    case (Inl e)
    show ?thesis
      by (rule ignores_storesI[where x = "Some (Inl e)"])
         (simp add: RenderStringAsync renderStringAsync_def Inl)
  next
    case (Inr t)
    from built_async(2)[OF Inr] c have "\<not> cacheTemplate (express t)" by simp
    from uncached_rendererD[OF conjunct2[OF render_uncached] this] obtain y where
      "\<And>st. renderAsync env n t (top_options opts) st = map_option (\<lambda>v. (v, st)) y" by blast
    then show ?thesis
      by (intro ignores_storesI[where x = y]) (simp add: RenderStringAsync renderStringAsync_def Inr)
  qed
qed

text \<open>
  C10: the sync and async stores are disjoint. After every sequence of render operations
  from empty stores, the sync store holds sync templates only and the async store async
  templates only; a lookup through \<open>getTemplate\<close> gives a sync template and leaves the
  async store as it is, a lookup through \<open>getTemplateAsync\<close> gives an async template
  and leaves the sync store as it is, and so does every sync and every async operation;
  an operation whose options do not set the cache flag leaves both stores as they are and
  gives the same result whatever the stores hold.
\<close>

theorem C10_stores_disjoint:
  "(perform_all env n xs no_stores = Some st \<longrightarrow> stores_ok st) \<and>
   (stores_ok st0 \<and> getTemplate env path opts st0 = (Inr t, st1) \<longrightarrow>
      \<not> isAsync t \<and> stores_ok st1 \<and> asyncCache st1 = asyncCache st0) \<and>
   (stores_ok st0 \<and> getTemplateAsync env path opts st0 = (Inr t, st1) \<longrightarrow>
      isAsync t \<and> stores_ok st1 \<and> cache st1 = cache st0) \<and>
   (stores_ok st0 \<and> perform env n x st0 = Some (r, st1) \<longrightarrow>
      stores_ok st1 \<and> (if op_async x then cache st1 = cache st0 else asyncCache st1 = asyncCache st0)) \<and>
   (\<not> cacheTemplate (op_options x) \<and> perform env n x st0 = Some (r, st1) \<longrightarrow>
      st1 = st0 \<and> perform env n x st2 = Some (r, st2))"
proof (intro conjI impI)
  assume "perform_all env n xs no_stores = Some st"
  from perform_all_ok[OF this stores_ok_empty] show "stores_ok st" .
next
  assume a: "stores_ok st0 \<and> getTemplate env path opts st0 = (Inr t, st1)"
  then have s: "stores_ok st0" and g: "getTemplate env path opts st0 = (Inr t, st1)" by simp_all
  from getTemplate_ok(3)[OF g s refl] getTemplate_ok(1)[OF g s] getTemplate_ok(2)[OF g s]
  show "\<not> isAsync t" "stores_ok st1" "asyncCache st1 = asyncCache st0" .
next
  assume a: "stores_ok st0 \<and> getTemplateAsync env path opts st0 = (Inr t, st1)"
  then have s: "stores_ok st0" and g: "getTemplateAsync env path opts st0 = (Inr t, st1)" by simp_all
  from getTemplateAsync_ok(3)[OF g s refl] getTemplateAsync_ok(1)[OF g s] getTemplateAsync_ok(2)[OF g s]
  show "isAsync t" "stores_ok st1" "cache st1 = cache st0" .
next
  assume a: "stores_ok st0 \<and> perform env n x st0 = Some (r, st1)"
  then have s: "stores_ok st0" and p: "perform env n x st0 = Some (r, st1)" by simp_all
  from perform_ok[OF p s]
  show "stores_ok st1" "if op_async x then cache st1 = cache st0 else asyncCache st1 = asyncCache st0"
    by simp_all
next
  assume a: "\<not> cacheTemplate (op_options x) \<and> perform env n x st0 = Some (r, st1)"
  then have c: "\<not> cacheTemplate (op_options x)" and p: "perform env n x st0 = Some (r, st1)"
    by simp_all
  from ignores_stores_result[OF perform_uncached[OF c] p]
  show "st1 = st0" "perform env n x st2 = Some (r, st2)" by simp_all
qed

theorem C10_stores_disjoint_witness:
  "\<not> cacheTemplate (op_options (RenderSync ''views/child.dot'' (plain_options []))) \<and>
   perform site 3 (RenderSync ''views/child.dot'' (plain_options [])) no_stores
     = Some (Inr ''<!doctype html>test-master test-child'', no_stores) \<and>
   (\<exists>st. perform_all site 3
           [RenderSync ''views/child.dot'' (plain_options [(''cache'', VBool True)]),
            RenderAsync ''views/child.dot'' (plain_options [(''cache'', VBool True)]),
            RenderSync ''views/child.dot'' (plain_options [(''cache'', VBool True)])] no_stores = Some st \<and>
         stores_ok st)"
proof -
  let ?x = "RenderSync ''views/child.dot'' (plain_options [])"
  let ?xs = "[RenderSync ''views/child.dot'' (plain_options [(''cache'', VBool True)]),
            RenderAsync ''views/child.dot'' (plain_options [(''cache'', VBool True)]),
            RenderSync ''views/child.dot'' (plain_options [(''cache'', VBool True)])]"
  have c: "\<not> cacheTemplate (op_options ?x)"
    by (simp add: cacheTemplate_def plain_options_def)
  have "map_option fst (perform site 3 ?x no_stores)
          = Some (Inr ''<!doctype html>test-master test-child'')"
    by code_simp
  then obtain st1 where p: "perform site 3 ?x no_stores
          = Some (Inr ''<!doctype html>test-master test-child'', st1)"
    by (cases "perform site 3 ?x no_stores") auto
  have "\<not> Option.is_none (perform_all site 3 ?xs no_stores)"
    by code_simp
  then obtain st where a: "perform_all site 3 ?xs no_stores = Some st"
    by (cases "perform_all site 3 ?xs no_stores") auto
  from C10_stores_disjoint[where env = site and n = 3 and x = ?x and xs = ?xs and st = st
      and ?st0.0 = no_stores and r = "Inr ''<!doctype html>test-master test-child''" and ?st1.0 = st1]
    c p a
  have "st1 = no_stores" "stores_ok st" by simp_all
  with c p a show ?thesis by blast
qed

end
